theory Spec2Isabelle
  imports Main "HOL-Library.Word"
begin

section \<open>Roller: selection engine of \<^verbatim>\<open>lv_roller.c\<close>\<close>

text \<open>
  The roller keeps three 16-bit counters and a mode. The header that declares
  \<^verbatim>\<open>lv_roller_t\<close> and the configuration constant \<^verbatim>\<open>LV_ROLLER_INF_PAGES\<close> are not
  part of the sources at hand: the fields are \<^verbatim>\<open>uint16_t\<close> (the locals that receive them in
  \<^verbatim>\<open>lv_roller.c\<close> are), and the number of pages is the parameter \<open>P\<close> of every function
  below, a positive compile-time constant of type \<^verbatim>\<open>int\<close>.

  The text of the child label is the field \<open>label_txt\<close>. The label's pixel position and
  the animation on it belong to collaborators and are not part of the state; of
  \<^verbatim>\<open>refr_position\<close> the model keeps the decision whether the wraparound normaliser runs.
  A result \<open>None\<close> stands for a division by zero or a write outside the destination buffer.
\<close>

type_synonym uint16_t = "16 word"

datatype lv_roller_mode_t = LV_ROLLER_MODE_NORMAL | LV_ROLLER_MODE_INFINITE

datatype lv_anim_enable_t = LV_ANIM_OFF | LV_ANIM_ON

record lv_roller_t =
  option_cnt :: uint16_t
  sel_opt_id :: uint16_t
  sel_opt_id_ori :: uint16_t
  mode :: lv_roller_mode_t
  moved :: bool
  label_txt :: string

text \<open>Input device types and the keys of the control signal.\<close>

datatype lv_indev_type_t =
  LV_INDEV_TYPE_NONE | LV_INDEV_TYPE_POINTER | LV_INDEV_TYPE_KEYPAD
  | LV_INDEV_TYPE_BUTTON | LV_INDEV_TYPE_ENCODER

datatype lv_key_t = LV_KEY_UP | LV_KEY_DOWN | LV_KEY_RIGHT | LV_KEY_LEFT | LV_KEY_OTHER

text \<open>
  Style values the roller reads (animation time, line height of the font, line spacing)
  and the decoder of the text encoding, \<^verbatim>\<open>_lv_txt_encoded_next\<close>, which answers the next
  letter and the byte index after it.
\<close>

record roller_env =
  anim_time :: uint16_t
  font_h :: int
  line_space :: int
  txt_encoded_next :: "string \<Rightarrow> nat \<Rightarrow> 32 word \<times> nat"

text \<open>
  What the release handler reads from the input device and from the geometry of the
  roller and its label: the device type, the letter index under the pointer
  (\<^verbatim>\<open>lv_label_get_letter_on\<close>), the vertical extent of the roller, the top of the label and
  the predicted throw (\<^verbatim>\<open>lv_indev_scroll_throw_predict\<close>).
\<close>

record indev_in =
  indev_type :: lv_indev_type_t
  letter_on :: nat
  obj_y1 :: int
  obj_y2 :: int
  label_y1 :: int
  throw_predict :: int

datatype lv_signal_t =
  LV_SIGNAL_GET_SELF_SIZE
  | LV_SIGNAL_STYLE_CHG
  | LV_SIGNAL_COORD_CHG bool
  | LV_SIGNAL_PRESSED
  | LV_SIGNAL_PRESSING int
  | LV_SIGNAL_RELEASED indev_in
  | LV_SIGNAL_FOCUS bool lv_indev_type_t
  | LV_SIGNAL_DEFOCUS
  | LV_SIGNAL_CONTROL lv_key_t
  | LV_SIGNAL_OTHER

definition newline :: char where
  "newline = CHR 0x0A"

text \<open>Division of C on \<^verbatim>\<open>int\<close>: the quotient is truncated towards zero.\<close>

definition c_div :: "int \<Rightarrow> int \<Rightarrow> int" where
  "c_div a b = sgn a * sgn b * (\<bar>a\<bar> div \<bar>b\<bar>)"

text \<open>\<^verbatim>\<open>uint16_t real_id_cnt = roller->option_cnt / LV_ROLLER_INF_PAGES\<close>\<close>

definition real_id_cnt :: "nat \<Rightarrow> lv_roller_t \<Rightarrow> uint16_t" where
  "real_id_cnt P r = word_of_nat (unat (option_cnt r) div P)"

definition inf_normalize :: "nat \<Rightarrow> lv_roller_t \<Rightarrow> lv_roller_t option" where
  "inf_normalize P r =
     (if mode r = LV_ROLLER_MODE_INFINITE then
        let cnt = real_id_cnt P r in
        if cnt = 0 then None
        else
          let r1 = r\<lparr>sel_opt_id := sel_opt_id r mod cnt\<rparr>;
              r2 = r1\<lparr>sel_opt_id := sel_opt_id r1 + word_of_nat (P div 2) * cnt\<rparr>;
              r3 = r2\<lparr>sel_opt_id_ori := sel_opt_id r2 mod cnt\<rparr>;
              r4 = r3\<lparr>sel_opt_id_ori := sel_opt_id_ori r3 + word_of_nat (P div 2) * cnt\<rparr>
          in Some r4
      else Some r)"

definition refr_position :: "nat \<Rightarrow> roller_env \<Rightarrow> lv_roller_t \<Rightarrow> lv_anim_enable_t \<Rightarrow> lv_roller_t option" where
  "refr_position P e r anim_en =
     (if anim_en = LV_ANIM_OFF \<or> anim_time e = 0 then inf_normalize P r else Some r)"

text \<open>The ready callback of the scroll animation.\<close>

definition scroll_anim_ready_cb :: "nat \<Rightarrow> lv_roller_t \<Rightarrow> lv_roller_t option" where
  "scroll_anim_ready_cb P r = inf_normalize P r"

text \<open>
  \<^verbatim>\<open>sel_opt_signed\<close> is an \<^verbatim>\<open>int32_t\<close> and \<^verbatim>\<open>page * LV_ROLLER_INF_PAGES\<close> an \<^verbatim>\<open>int\<close>: both are
  integers here, and the assignment back to the \<^verbatim>\<open>uint16_t sel_opt\<close> truncates.
\<close>

definition lv_roller_set_selected ::
  "nat \<Rightarrow> roller_env \<Rightarrow> lv_roller_t \<Rightarrow> uint16_t \<Rightarrow> lv_anim_enable_t \<Rightarrow> lv_roller_t option" where
  "lv_roller_set_selected P e r sel_opt anim =
     (let sel_opt' =
        (if mode r = LV_ROLLER_MODE_INFINITE then
           let sel_opt_signed = uint sel_opt;
               page = (word_of_nat (unat (sel_opt_id r) div P) :: uint16_t);
               sel_opt_signed' =
                 (if page \<noteq> 0 then sel_opt_signed - uint page * int P else sel_opt_signed)
           in (word_of_int (uint page * int P + sel_opt_signed') :: uint16_t)
         else sel_opt);
          sel = (if sel_opt' < option_cnt r then sel_opt' else option_cnt r - 1)
      in refr_position P e (r\<lparr>sel_opt_id := sel, sel_opt_id_ori := sel\<rparr>) anim)"

definition lv_roller_get_selected :: "nat \<Rightarrow> lv_roller_t \<Rightarrow> uint16_t option" where
  "lv_roller_get_selected P r =
     (if mode r = LV_ROLLER_MODE_INFINITE then
        let cnt = real_id_cnt P r in
        if cnt = 0 then None else Some (sel_opt_id r mod cnt)
      else Some (sel_opt_id r))"

definition lv_roller_get_option_cnt :: "nat \<Rightarrow> lv_roller_t \<Rightarrow> uint16_t" where
  "lv_roller_get_option_cnt P r =
     (if mode r = LV_ROLLER_MODE_INFINITE then word_of_nat (unat (option_cnt r) div P)
      else option_cnt r)"

text \<open>
  \<^verbatim>\<open>lv_roller_get_selected_str\<close>. The first loop walks to the start of the selected line,
  the second copies it. \<^verbatim>\<open>buf\<close> is the destination memory, as long as the list is; a
  write at or after its end has no defined result (\<open>None\<close>). The counters \<^verbatim>\<open>i\<close> and
  \<^verbatim>\<open>c\<close> and \<^verbatim>\<open>buf_size\<close> are \<^verbatim>\<open>uint32_t\<close>; texts stay far below that range and
  they are natural numbers here.
\<close>

function line_start :: "string \<Rightarrow> uint16_t \<Rightarrow> nat \<Rightarrow> uint16_t \<Rightarrow> nat" where
  "line_start opt_txt sel i line =
     (if i < length opt_txt \<and> line \<noteq> sel
      then line_start opt_txt sel (Suc i) (if opt_txt ! i = newline then line + 1 else line)
      else i)"
  by pat_completeness auto
termination
  by (relation "measure (\<lambda>(opt_txt, sel, i, line). length opt_txt - i)") auto

function copy_line :: "string \<Rightarrow> nat \<Rightarrow> nat \<Rightarrow> nat \<Rightarrow> string \<Rightarrow> (nat \<times> string) option" where
  "copy_line opt_txt buf_size i c buf =
     (if i < length opt_txt \<and> opt_txt ! i \<noteq> newline then
        if buf_size \<noteq> 0 \<and> buf_size - 1 \<le> c then Some (c, buf)
        else if c < length buf
          then copy_line opt_txt buf_size (Suc i) (Suc c) (buf[c := opt_txt ! i])
          else None
      else Some (c, buf))"
  by pat_completeness auto
termination
  by (relation "measure (\<lambda>(opt_txt, buf_size, i, c, buf). length opt_txt - i)") auto

definition lv_roller_get_selected_str :: "lv_roller_t \<Rightarrow> string \<Rightarrow> nat \<Rightarrow> string option" where
  "lv_roller_get_selected_str r buf buf_size =
     (let opt_txt = label_txt r;
          i = line_start opt_txt (sel_opt_id r) 0 0
      in case copy_line opt_txt buf_size i 0 buf of
           None \<Rightarrow> None
         | Some (c, buf') \<Rightarrow> if c < length buf' then Some (buf'[c := CHR 0x00]) else None)"

text \<open>
  \<^verbatim>\<open>lv_roller_set_options\<close>. The page counter of the copy loop is a \<^verbatim>\<open>uint8_t\<close>, so the
  loop cannot end when there are more than 255 pages.
\<close>

definition lv_roller_set_options ::
  "nat \<Rightarrow> lv_roller_t \<Rightarrow> string \<Rightarrow> lv_roller_mode_t \<Rightarrow> lv_roller_t option" where
  "lv_roller_set_options P r options m =
     (let r1 = r\<lparr>sel_opt_id := 0, sel_opt_id_ori := 0,
                  option_cnt := foldl (\<lambda>cnt ch. if ch = newline then cnt + 1 else cnt) 0 options + 1\<rparr>
      in if m = LV_ROLLER_MODE_NORMAL
         then Some (r1\<lparr>mode := LV_ROLLER_MODE_NORMAL, label_txt := options,
                        sel_opt_id_ori := sel_opt_id r1\<rparr>)
         else if 255 < P then None
         else
           let r2 = r1\<lparr>mode := LV_ROLLER_MODE_INFINITE,
                        label_txt := butlast (concat (replicate P (options @ [newline])))\<rparr>;
               r3 = r2\<lparr>sel_opt_id := word_of_nat (P div 2 + 0) * option_cnt r2\<rparr>;
               r4 = r3\<lparr>option_cnt := option_cnt r3 * word_of_nat P\<rparr>
           in case inf_normalize P r4 of
                None \<Rightarrow> None
              | Some r5 \<Rightarrow> Some (r5\<lparr>sel_opt_id_ori := sel_opt_id r5\<rparr>))"

text \<open>
  \<^verbatim>\<open>release_handler\<close>. A tap counts the line breaks before the letter under the pointer;
  \<^verbatim>\<open>new_opt\<close> is an \<^verbatim>\<open>int16_t\<close>, read with \<open>sint\<close>. After a drag the line under the
  middle of the roller is computed from pixel coordinates, which are integers here (a
  wrap-around of \<^verbatim>\<open>lv_coord_t\<close> is not modelled for the roller; the id is clamped to the
  option count whatever the coordinates are).
\<close>

function tap_lines ::
  "(string \<Rightarrow> nat \<Rightarrow> 32 word \<times> nat) \<Rightarrow> string \<Rightarrow> nat \<Rightarrow> nat \<Rightarrow> nat \<Rightarrow> nat \<Rightarrow> 16 word \<Rightarrow> 16 word" where
  "tap_lines nxt txt letter_i letter_cnt i i_prev new_opt =
     (if letter_cnt < letter_i then
        let (letter, i') = nxt txt i;
            new_opt' = (if letter = 0x0A \<and> i_prev \<noteq> letter_i then new_opt + 1 else new_opt)
        in tap_lines nxt txt letter_i (Suc letter_cnt) i' i' new_opt'
      else new_opt)"
  by pat_completeness auto
termination
  by (relation "measure (\<lambda>(nxt, txt, letter_i, letter_cnt, i, i_prev, new_opt). letter_i - letter_cnt)") auto

definition drag_id :: "roller_env \<Rightarrow> lv_roller_t \<Rightarrow> indev_in \<Rightarrow> 16 word option" where
  "drag_id e r inp =
     (let label_unit = font_h e + line_space e;
          mid = obj_y1 inp + c_div (obj_y2 inp - obj_y1 inp) 2;
          y1 = label_y1 inp + throw_predict inp
      in if label_unit = 0 then None
         else
           let id0 = c_div (mid - y1) label_unit;
               id1 = (if id0 < 0 then 0 else id0);
               id2 = (if uint (option_cnt r) \<le> id1 then uint (option_cnt r) - 1 else id1)
           in Some (word_of_int id2))"

definition release_handler :: "nat \<Rightarrow> roller_env \<Rightarrow> lv_roller_t \<Rightarrow> indev_in \<Rightarrow> lv_roller_t option" where
  "release_handler P e r inp =
     (let r1 = (if indev_type inp = LV_INDEV_TYPE_ENCODER \<or> indev_type inp = LV_INDEV_TYPE_KEYPAD
                then r\<lparr>sel_opt_id_ori := sel_opt_id r\<rparr> else r)
      in if indev_type inp = LV_INDEV_TYPE_POINTER \<or> indev_type inp = LV_INDEV_TYPE_BUTTON then
           case (if \<not> moved r1
                 then Some (tap_lines (txt_encoded_next e) (label_txt r1) (letter_on inp) 0 0 0 0)
                 else drag_id e r1 inp) of
             None \<Rightarrow> None
           | Some new_opt \<Rightarrow>
               if 0 \<le> sint new_opt then lv_roller_set_selected P e r1 new_opt LV_ANIM_ON
               else Some r1
         else Some r1)"

text \<open>
  \<^verbatim>\<open>lv_roller_signal\<close>, on the signals that touch the selection. The signal function of
  the base class is taken to answer \<^verbatim>\<open>LV_RES_OK\<close>.
\<close>

fun lv_roller_signal :: "nat \<Rightarrow> roller_env \<Rightarrow> lv_roller_t \<Rightarrow> lv_signal_t \<Rightarrow> lv_roller_t option" where
  "lv_roller_signal P e r LV_SIGNAL_STYLE_CHG = refr_position P e r LV_ANIM_OFF"
| "lv_roller_signal P e r (LV_SIGNAL_COORD_CHG size_changed) =
     (if size_changed then refr_position P e r LV_ANIM_OFF else Some r)"
| "lv_roller_signal P e r LV_SIGNAL_PRESSED = Some (r\<lparr>moved := False\<rparr>)"
| "lv_roller_signal P e r (LV_SIGNAL_PRESSING py) =
     (if py \<noteq> 0 then Some (r\<lparr>moved := True\<rparr>) else Some r)"
| "lv_roller_signal P e r (LV_SIGNAL_RELEASED inp) = release_handler P e r inp"
| "lv_roller_signal P e r (LV_SIGNAL_FOCUS editing ty) =
     (if ty = LV_INDEV_TYPE_ENCODER then
        if \<not> editing then
          if sel_opt_id r \<noteq> sel_opt_id_ori r
          then refr_position P e (r\<lparr>sel_opt_id := sel_opt_id_ori r\<rparr>) LV_ANIM_ON
          else Some r
        else Some (r\<lparr>sel_opt_id_ori := sel_opt_id r\<rparr>)
      else Some (r\<lparr>sel_opt_id_ori := sel_opt_id r\<rparr>))"
| "lv_roller_signal P e r LV_SIGNAL_DEFOCUS =
     (if sel_opt_id r \<noteq> sel_opt_id_ori r
      then refr_position P e (r\<lparr>sel_opt_id := sel_opt_id_ori r\<rparr>) LV_ANIM_ON
      else Some r)"
| "lv_roller_signal P e r (LV_SIGNAL_CONTROL c) =
     (if c = LV_KEY_RIGHT \<or> c = LV_KEY_DOWN then
        if unat (sel_opt_id r) + 1 < unat (option_cnt r) then
          let ori_id = sel_opt_id_ori r in
          case lv_roller_set_selected P e r (sel_opt_id r + 1) LV_ANIM_ON of
            None \<Rightarrow> None
          | Some r' \<Rightarrow> Some (r'\<lparr>sel_opt_id_ori := ori_id\<rparr>)
        else Some r
      else if c = LV_KEY_LEFT \<or> c = LV_KEY_UP then
        if 0 < sel_opt_id r then
          let ori_id = sel_opt_id_ori r in
          case lv_roller_set_selected P e r (sel_opt_id r - 1) LV_ANIM_ON of
            None \<Rightarrow> None
          | Some r' \<Rightarrow> Some (r'\<lparr>sel_opt_id_ori := ori_id\<rparr>)
        else Some r
      else Some r)"
| "lv_roller_signal P e r LV_SIGNAL_GET_SELF_SIZE = Some r"
| "lv_roller_signal P e r LV_SIGNAL_OTHER = Some r"

text \<open>
  The host delivers calls one after the other; a sequence of them stops at the first
  call without a result.
\<close>

datatype roller_op =
  Set_selected uint16_t lv_anim_enable_t
  | Signal lv_signal_t
  | Anim_ready

fun roller_step :: "nat \<Rightarrow> roller_env \<Rightarrow> lv_roller_t \<Rightarrow> roller_op \<Rightarrow> lv_roller_t option" where
  "roller_step P e r (Set_selected i anim) = lv_roller_set_selected P e r i anim"
| "roller_step P e r (Signal s) = lv_roller_signal P e r s"
| "roller_step P e r Anim_ready = scroll_anim_ready_cb P r"

fun roller_run :: "nat \<Rightarrow> roller_env \<Rightarrow> lv_roller_t \<Rightarrow> roller_op list \<Rightarrow> lv_roller_t option" where
  "roller_run P e r [] = Some r"
| "roller_run P e r (x # xs) =
     (case roller_step P e r x of None \<Rightarrow> None | Some r' \<Rightarrow> roller_run P e r' xs)"

text \<open>The invariant of the data model, with the snapshot and the page count it needs.\<close>

definition roller_inv :: "nat \<Rightarrow> lv_roller_t \<Rightarrow> bool" where
  "roller_inv P r \<longleftrightarrow>
     sel_opt_id r < option_cnt r \<and> sel_opt_id_ori r < option_cnt r
     \<and> (mode r = LV_ROLLER_MODE_INFINITE \<longrightarrow> real_id_cnt P r \<noteq> 0)"

text \<open>
  The selected line in the words of the specification: the text after the first
  \<open>n\<close> line breaks, up to the next line break.
\<close>

fun skip_lines :: "nat \<Rightarrow> string \<Rightarrow> string" where
  "skip_lines 0 s = s"
| "skip_lines (Suc n) [] = []"
| "skip_lines (Suc n) (x # xs) = (if x = newline then skip_lines n xs else skip_lines (Suc n) xs)"

definition selected_line :: "lv_roller_t \<Rightarrow> string" where
  "selected_line r = takeWhile (\<lambda>ch. ch \<noteq> newline) (skip_lines (unat (sel_opt_id r)) (label_txt r))"

text \<open>Calls of the roller change neither its mode nor its option count.\<close>

definition same_shape :: "lv_roller_t \<Rightarrow> lv_roller_t \<Rightarrow> bool" where
  "same_shape r r' \<longleftrightarrow> option_cnt r' = option_cnt r \<and> mode r' = mode r"


section \<open>Table: cell model and layout of \<^verbatim>\<open>lv_table.c\<close>\<close>

text \<open>
  A table has 16-bit row and column counts, the widths of its columns, the heights of its
  rows and a row-major array of cell pointers. A cell pointer is \<open>None\<close> for \<^verbatim>\<open>NULL\<close>, or
  holds the format byte and the text that follows it. The union \<^verbatim>\<open>lv_table_cell_format_t\<close>
  is declared in a header that is not among the sources at hand; \<^verbatim>\<open>lv_table.c\<close> reads and
  writes it through the two bit fields \<^verbatim>\<open>s.right_merge\<close> and \<^verbatim>\<open>s.crop\<close> only, which are the
  two fields of the record here. A coordinate (\<^verbatim>\<open>lv_coord_t\<close>) is an integer; the width
  of that type is a configuration (\<^verbatim>\<open>int16_t\<close> unless large coordinates are switched on),
  so the conversion of an \<^verbatim>\<open>int\<close> result to it, at every assignment to a variable of the
  type, is the parameter \<open>to_coord\<close> of the environment.

  A result \<open>None\<close> means that the C function has no result to speak of: an allocation
  failed (\<^verbatim>\<open>LV_ASSERT_MALLOC\<close>, then an early return or a write through \<^verbatim>\<open>NULL\<close>), an array
  was indexed outside its allocation, or a loop cannot end.
\<close>

record lv_table_cell_format_t =
  right_merge :: bool
  crop :: bool

type_synonym cell = "lv_table_cell_format_t \<times> string"

record lv_table_t =
  col_cnt :: uint16_t
  row_cnt :: uint16_t
  cell_data :: "cell option list"
  row_h :: "int list"
  col_w :: "int list"

text \<open>
  Style values the table reads (paddings of the cells, line height of the font), the
  text measurement \<^verbatim>\<open>lv_txt_get_size\<close> as a function of the text and the available width
  that answers the height, the configuration constant \<^verbatim>\<open>LV_DPI_DEF\<close>, and the conversion
  to \<^verbatim>\<open>lv_coord_t\<close>.
\<close>

record table_env =
  cell_left :: int
  cell_right :: int
  cell_top :: int
  cell_bottom :: int
  font_line_height :: int
  txt_get_size_y :: "string \<Rightarrow> int \<Rightarrow> int"
  dpi_def :: int
  to_coord :: "int \<Rightarrow> int"

text \<open>The conversion to a 16-bit \<^verbatim>\<open>lv_coord_t\<close>: two's complement wrap-around.\<close>

definition coord16 :: "int \<Rightarrow> int" where
  "coord16 x = (x + 32768) mod 65536 - 32768"

text \<open>
  The allocator is a collaborator. The outcomes of its coming calls are a parameter: a
  list of booleans, one used up by each call; when the list is empty the call succeeds.
\<close>

definition lv_mem_alloc :: "bool list \<Rightarrow> bool \<times> bool list" where
  "lv_mem_alloc mem = (case mem of [] \<Rightarrow> (True, []) | ok # rest \<Rightarrow> (ok, rest))"

definition lv_mem_realloc :: "bool list \<Rightarrow> bool \<times> bool list" where
  "lv_mem_realloc mem = lv_mem_alloc mem"

definition mem_ok :: "bool list \<Rightarrow> bool" where
  "mem_ok mem \<longleftrightarrow> list_all (\<lambda>ok. ok) mem"

text \<open>
  What \<^verbatim>\<open>lv_mem_realloc\<close> does to an array: the first entries stay, up to the new size.
  The entries it adds are indeterminate in C; \<open>d\<close> stands for them, and the callers
  overwrite them when the array had the length that the counts say.
\<close>

definition resize :: "nat \<Rightarrow> 'a \<Rightarrow> 'a list \<Rightarrow> 'a list" where
  "resize n d xs = take n xs @ replicate (n - length xs) d"

text \<open>\<^verbatim>\<open>lv_memcpy_small (&dst[at], src, ...)\<close> with the source already read.\<close>

definition lv_memcpy_small :: "'a list \<Rightarrow> nat \<Rightarrow> 'a list \<Rightarrow> 'a list" where
  "lv_memcpy_small dst at src = take at dst @ src @ drop (at + length src) dst"

text \<open>Reads of the arrays; \<open>None\<close> outside the allocation.\<close>

definition cell_at :: "lv_table_t \<Rightarrow> nat \<Rightarrow> cell option option" where
  "cell_at t i = (if i < length (cell_data t) then Some (cell_data t ! i) else None)"

definition col_w_at :: "lv_table_t \<Rightarrow> nat \<Rightarrow> int option" where
  "col_w_at t i = (if i < length (col_w t) then Some (col_w t ! i) else None)"

text \<open>The consistency of the arrays with the counts (the invariant of the data model).\<close>

definition table_inv :: "lv_table_t \<Rightarrow> bool" where
  "table_inv t \<longleftrightarrow>
     length (cell_data t) = unat (row_cnt t) * unat (col_cnt t)
     \<and> length (col_w t) = unat (col_cnt t)
     \<and> length (row_h t) = unat (row_cnt t)"

text \<open>The table a constructor call without a copy source leaves.\<close>

definition lv_table_constructor :: "table_env \<Rightarrow> lv_table_t" where
  "lv_table_constructor e =
     \<lparr>col_cnt = 1, row_cnt = 1, cell_data = [None], row_h = [dpi_def e], col_w = [dpi_def e]\<rparr>"

subsection \<open>Row heights\<close>

text \<open>
  The inner loop of \<^verbatim>\<open>get_row_height\<close>: the merge chain that starts at \<^verbatim>\<open>cell\<close>. It
  answers the length of the chain and the width of its columns. The comparison
  \<^verbatim>\<open>col_merge + col < table->col_cnt - 1\<close> is one of \<^verbatim>\<open>int\<close> (false when there is no
  column), written here with the 1 on the left.
\<close>

function merge_scan ::
  "table_env \<Rightarrow> lv_table_t \<Rightarrow> nat \<Rightarrow> nat \<Rightarrow> nat \<Rightarrow> int \<Rightarrow> (nat \<times> int) option" where
  "merge_scan e t cell col col_merge txt_w =
     (if col_merge + col + 1 < unat (col_cnt t) then
        case cell_at t (cell + col_merge) of
          None \<Rightarrow> None
        | Some None \<Rightarrow> Some (col_merge, txt_w)
        | Some (Some (format, txt)) \<Rightarrow>
            if right_merge format then
              case col_w_at t (col + col_merge + 1) of
                None \<Rightarrow> None
              | Some w \<Rightarrow> merge_scan e t cell col (Suc col_merge) (to_coord e (txt_w + w))
            else Some (col_merge, txt_w)
      else Some (col_merge, txt_w))"
  by pat_completeness auto
termination
  by (relation "measure (\<lambda>(e, t, cell, col, col_merge, txt_w). unat (col_cnt t) - (col_merge + col))")
     auto

text \<open>
  The outer loop, from \<^verbatim>\<open>cell\<close> and \<^verbatim>\<open>col\<close> up to \<open>bound = row_start + col_cnt\<close>.
\<close>

function row_loop :: "table_env \<Rightarrow> lv_table_t \<Rightarrow> nat \<Rightarrow> nat \<Rightarrow> nat \<Rightarrow> int \<Rightarrow> int option" where
  "row_loop e t bound cell col h_max =
     (if cell < bound then
        case cell_at t cell of
          None \<Rightarrow> None
        | Some None \<Rightarrow> row_loop e t bound (Suc cell) (Suc col) h_max
        | Some (Some (format, txt)) \<Rightarrow>
            (case col_w_at t col of
               None \<Rightarrow> None
             | Some w \<Rightarrow>
                 (case merge_scan e t cell col 0 w of
                    None \<Rightarrow> None
                  | Some (col_merge, txt_w) \<Rightarrow>
                      if crop format then
                        row_loop e t bound (Suc cell) (Suc col)
                          (to_coord e (max (font_line_height e + cell_top e + cell_bottom e) h_max))
                      else
                        let txt_w' = to_coord e (txt_w - (cell_left e + cell_right e));
                            txt_size_y = txt_get_size_y e txt txt_w'
                        in row_loop e t bound (Suc (cell + col_merge)) (Suc (col + col_merge))
                             (to_coord e (max (txt_size_y + cell_top e + cell_bottom e) h_max))))
      else Some h_max)"
  by pat_completeness auto
termination
  by (relation "measure (\<lambda>(e, t, bound, cell, col, h_max). bound - cell)") auto

text \<open>
  \<^verbatim>\<open>row_start\<close> and \<^verbatim>\<open>cell\<close> are \<^verbatim>\<open>uint16_t\<close>, the loop condition
  \<^verbatim>\<open>cell < row_start + table->col_cnt\<close> compares \<^verbatim>\<open>int\<close>s. When the right-hand side
  exceeds 65535 no value of \<^verbatim>\<open>cell\<close> ends the loop. Otherwise \<^verbatim>\<open>cell\<close> never wraps
  and natural numbers count it.
\<close>

definition get_row_height :: "table_env \<Rightarrow> lv_table_t \<Rightarrow> uint16_t \<Rightarrow> int option" where
  "get_row_height e t row_id =
     (let row_start = (word_of_nat (unat row_id * unat (col_cnt t)) :: uint16_t);
          h_max = to_coord e (font_line_height e + cell_top e + cell_bottom e)
      in if 65535 < unat row_start + unat (col_cnt t) then None
         else row_loop e t (unat row_start + unat (col_cnt t)) (unat row_start) 0 h_max)"

function refr_rows :: "table_env \<Rightarrow> lv_table_t \<Rightarrow> nat \<Rightarrow> lv_table_t option" where
  "refr_rows e t i =
     (if i < unat (row_cnt t) then
        case get_row_height e t (word_of_nat i) of
          None \<Rightarrow> None
        | Some h \<Rightarrow>
            if i < length (row_h t) then refr_rows e (t\<lparr>row_h := (row_h t)[i := h]\<rparr>) (Suc i)
            else None
      else Some t)"
  by pat_completeness auto
termination
  by (relation "measure (\<lambda>(e, t, i). unat (row_cnt t) - i)") auto

definition refr_size :: "table_env \<Rightarrow> lv_table_t \<Rightarrow> lv_table_t option" where
  "refr_size e t = refr_rows e t 0"

subsection \<open>Changing the counts\<close>

definition lv_table_set_row_cnt ::
  "table_env \<Rightarrow> bool list \<Rightarrow> lv_table_t \<Rightarrow> uint16_t \<Rightarrow> (lv_table_t \<times> bool list) option" where
  "lv_table_set_row_cnt e mem t n =
     (let old_row_cnt = row_cnt t;
          t1 = t\<lparr>row_cnt := n\<rparr>
      in case lv_mem_realloc mem of
           (False, mem1) \<Rightarrow> None
         | (True, mem1) \<Rightarrow>
             let t2 = t1\<lparr>row_h := resize (unat (row_cnt t1)) 0 (row_h t1)\<rparr> in
             case lv_mem_realloc mem1 of
               (False, mem2) \<Rightarrow> None
             | (True, mem2) \<Rightarrow>
                 let t3 = t2\<lparr>cell_data :=
                            resize (unat (row_cnt t2) * unat (col_cnt t2)) None (cell_data t2)\<rparr>;
                     old_cell_cnt = unat old_row_cnt * unat (col_cnt t3);
                     new_cell_cnt = unat (col_cnt t3) * unat (row_cnt t3);
                     t4 = (if old_row_cnt < n
                           then t3\<lparr>cell_data := lv_memcpy_small (cell_data t3) old_cell_cnt
                                     (replicate (new_cell_cnt - old_cell_cnt) None)\<rparr>
                           else t3)
                 in map_option (\<lambda>t'. (t', mem2)) (refr_size e t4))"

text \<open>
  The row loop of \<^verbatim>\<open>lv_table_set_col_cnt\<close>: row after row, the leading
  \<^verbatim>\<open>min_col_cnt\<close> cell pointers move to their place in the new array.
\<close>

function copy_rows ::
  "cell option list \<Rightarrow> nat \<Rightarrow> nat \<Rightarrow> nat \<Rightarrow> nat \<Rightarrow> nat \<Rightarrow> cell option list \<Rightarrow> cell option list option" where
  "copy_rows old_cell_data old_col_cnt new_col_cnt min_col_cnt rows row new_cell_data =
     (if row < rows then
        let old_col_start = row * old_col_cnt;
            new_col_start = row * new_col_cnt
        in if old_col_start + min_col_cnt \<le> length old_cell_data
              \<and> new_col_start + min_col_cnt \<le> length new_cell_data
           then copy_rows old_cell_data old_col_cnt new_col_cnt min_col_cnt rows (Suc row)
                  (lv_memcpy_small new_cell_data new_col_start
                     (take min_col_cnt (drop old_col_start old_cell_data)))
           else None
      else Some new_cell_data)"
  by pat_completeness auto
termination
  by (relation "measure (\<lambda>(ocd, oc, nc, mc, rows, row, ncd). rows - row)") auto

definition lv_table_set_col_cnt ::
  "table_env \<Rightarrow> bool list \<Rightarrow> lv_table_t \<Rightarrow> uint16_t \<Rightarrow> (lv_table_t \<times> bool list) option" where
  "lv_table_set_col_cnt e mem t n =
     (let old_col_cnt = col_cnt t;
          t1 = t\<lparr>col_cnt := n\<rparr>
      in case lv_mem_realloc mem of
           (False, mem1) \<Rightarrow> None
         | (True, mem1) \<Rightarrow>
             let t2 = t1\<lparr>col_w := resize (unat n) 0 (col_w t1)\<rparr> in
             case lv_mem_alloc mem1 of
               (False, mem2) \<Rightarrow> None
             | (True, mem2) \<Rightarrow>
                 let new_cell_cnt = unat (col_cnt t2) * unat (row_cnt t2);
                     new_cell_data = replicate new_cell_cnt None;
                     t3 = (if old_col_cnt < n
                           then t2\<lparr>col_w := foldl (\<lambda>w col. w[col := dpi_def e]) (col_w t2)
                                               [unat old_col_cnt ..< unat n]\<rparr>
                           else t2);
                     min_col_cnt = min (unat old_col_cnt) (unat n)
                 in case copy_rows (cell_data t3) (unat old_col_cnt) (unat n) min_col_cnt
                           (unat (row_cnt t3)) 0 new_cell_data of
                      None \<Rightarrow> None
                    | Some cd \<Rightarrow> map_option (\<lambda>t'. (t', mem2)) (refr_size e (t3\<lparr>cell_data := cd\<rparr>)))"

subsection \<open>Writing cells\<close>

text \<open>
  The auto-expansion that opens \<^verbatim>\<open>lv_table_set_cell_value\<close>, \<^verbatim>\<open>lv_table_set_cell_crop\<close>
  and \<^verbatim>\<open>lv_table_set_cell_merge_right\<close>: first the columns, then the rows. The argument
  \<^verbatim>\<open>col + 1\<close> is cut to 16 bits by the parameter type.
\<close>

definition auto_expand ::
  "table_env \<Rightarrow> bool list \<Rightarrow> lv_table_t \<Rightarrow> uint16_t \<Rightarrow> uint16_t \<Rightarrow> (lv_table_t \<times> bool list) option" where
  "auto_expand e mem t row col =
     (case (if col_cnt t \<le> col then lv_table_set_col_cnt e mem t (col + 1) else Some (t, mem)) of
        None \<Rightarrow> None
      | Some (t1, mem1) \<Rightarrow>
          if row_cnt t1 \<le> row then lv_table_set_row_cnt e mem1 t1 (row + 1) else Some (t1, mem1))"

definition cell_index :: "lv_table_t \<Rightarrow> uint16_t \<Rightarrow> uint16_t \<Rightarrow> nat" where
  "cell_index t row col = unat row * unat (col_cnt t) + unat col"

text \<open>
  Storing a text in a cell keeps the format byte of the cell, or starts from a cleared one.
  (The variant for Arabic and Persian shaping, off by default, is not modelled.)
\<close>

definition store_text ::
  "table_env \<Rightarrow> bool list \<Rightarrow> lv_table_t \<Rightarrow> uint16_t \<Rightarrow> uint16_t \<Rightarrow> string \<Rightarrow> (lv_table_t \<times> bool list) option" where
  "store_text e mem t row col txt =
     (let cell = cell_index t row col in
      case cell_at t cell of
        None \<Rightarrow> None
      | Some c \<Rightarrow>
          let format = (case c of Some (f, old_txt) \<Rightarrow> f
                        | None \<Rightarrow> \<lparr>right_merge = False, crop = False\<rparr>)
          in case lv_mem_realloc mem of
               (False, mem1) \<Rightarrow> None
             | (True, mem1) \<Rightarrow>
                 map_option (\<lambda>t'. (t', mem1))
                   (refr_size e (t\<lparr>cell_data := (cell_data t)[cell := Some (format, txt)]\<rparr>)))"

definition lv_table_set_cell_value ::
  "table_env \<Rightarrow> bool list \<Rightarrow> lv_table_t \<Rightarrow> uint16_t \<Rightarrow> uint16_t \<Rightarrow> string \<Rightarrow> (lv_table_t \<times> bool list) option" where
  "lv_table_set_cell_value e mem t row col txt =
     (case auto_expand e mem t row col of
        None \<Rightarrow> None
      | Some (t1, mem1) \<Rightarrow> store_text e mem1 t1 row col txt)"

text \<open>
  The formatted variant; \<open>txt\<close> is the text that \<^verbatim>\<open>lv_vsnprintf\<close> renders from the format
  and its arguments.
\<close>

definition lv_table_set_cell_value_fmt ::
  "table_env \<Rightarrow> bool list \<Rightarrow> lv_table_t \<Rightarrow> uint16_t \<Rightarrow> uint16_t \<Rightarrow> string \<Rightarrow> (lv_table_t \<times> bool list) option" where
  "lv_table_set_cell_value_fmt e mem t row col txt =
     (if col_cnt t \<le> col then Some (t, mem)
      else
        case (if row_cnt t \<le> row then lv_table_set_row_cnt e mem t (row + 1) else Some (t, mem)) of
          None \<Rightarrow> None
        | Some (t1, mem1) \<Rightarrow> store_text e mem1 t1 row col txt)"

text \<open>
  The common part of \<^verbatim>\<open>lv_table_set_cell_crop\<close> and \<^verbatim>\<open>lv_table_set_cell_merge_right\<close>: a
  cell without a buffer gets one with a cleared format byte and an empty text.
\<close>

definition ensure_cell ::
  "bool list \<Rightarrow> lv_table_t \<Rightarrow> nat \<Rightarrow> (lv_table_t \<times> bool list) option" where
  "ensure_cell mem t cell =
     (case cell_at t cell of
        None \<Rightarrow> None
      | Some (Some c) \<Rightarrow> Some (t, mem)
      | Some None \<Rightarrow>
          (case lv_mem_alloc mem of
             (False, mem1) \<Rightarrow> None
           | (True, mem1) \<Rightarrow>
               Some (t\<lparr>cell_data := (cell_data t)[cell := Some (\<lparr>right_merge = False, crop = False\<rparr>, [])]\<rparr>,
                     mem1)))"

definition set_format ::
  "(lv_table_cell_format_t \<Rightarrow> lv_table_cell_format_t) \<Rightarrow> lv_table_t \<Rightarrow> nat \<Rightarrow> lv_table_t option" where
  "set_format upd t cell =
     (case cell_at t cell of
        Some (Some (format, txt)) \<Rightarrow> Some (t\<lparr>cell_data := (cell_data t)[cell := Some (upd format, txt)]\<rparr>)
      | _ \<Rightarrow> None)"

definition lv_table_set_cell_crop ::
  "table_env \<Rightarrow> bool list \<Rightarrow> lv_table_t \<Rightarrow> uint16_t \<Rightarrow> uint16_t \<Rightarrow> bool \<Rightarrow> (lv_table_t \<times> bool list) option" where
  "lv_table_set_cell_crop e mem t row col v =
     (case auto_expand e mem t row col of
        None \<Rightarrow> None
      | Some (t1, mem1) \<Rightarrow>
          (case ensure_cell mem1 t1 (cell_index t1 row col) of
             None \<Rightarrow> None
           | Some (t2, mem2) \<Rightarrow>
               map_option (\<lambda>t'. (t', mem2))
                 (set_format (\<lambda>format. format\<lparr>crop := v\<rparr>) t2 (cell_index t1 row col))))"

definition lv_table_set_cell_merge_right ::
  "table_env \<Rightarrow> bool list \<Rightarrow> lv_table_t \<Rightarrow> uint16_t \<Rightarrow> uint16_t \<Rightarrow> bool \<Rightarrow> (lv_table_t \<times> bool list) option" where
  "lv_table_set_cell_merge_right e mem t row col en =
     (case auto_expand e mem t row col of
        None \<Rightarrow> None
      | Some (t1, mem1) \<Rightarrow>
          (case ensure_cell mem1 t1 (cell_index t1 row col) of
             None \<Rightarrow> None
           | Some (t2, mem2) \<Rightarrow>
               (case set_format (\<lambda>format. format\<lparr>right_merge := (if en then True else False)\<rparr>) t2
                       (cell_index t1 row col) of
                  None \<Rightarrow> None
                | Some t3 \<Rightarrow> map_option (\<lambda>t'. (t', mem2)) (refr_size e t3))))"

subsection \<open>Reading cells\<close>

definition lv_table_get_cell_value :: "lv_table_t \<Rightarrow> uint16_t \<Rightarrow> uint16_t \<Rightarrow> string option" where
  "lv_table_get_cell_value t row col =
     (if row_cnt t \<le> row \<or> col_cnt t \<le> col then Some []
      else case cell_at t (cell_index t row col) of
             None \<Rightarrow> None
           | Some None \<Rightarrow> Some []
           | Some (Some (format, txt)) \<Rightarrow> Some txt)"

definition lv_table_get_cell_crop :: "lv_table_t \<Rightarrow> uint16_t \<Rightarrow> uint16_t \<Rightarrow> bool option" where
  "lv_table_get_cell_crop t row col =
     (if row_cnt t \<le> row \<or> col_cnt t \<le> col then Some False
      else case cell_at t (cell_index t row col) of
             None \<Rightarrow> None
           | Some None \<Rightarrow> Some False
           | Some (Some (format, txt)) \<Rightarrow> Some (crop format))"

definition lv_table_get_cell_merge_right :: "lv_table_t \<Rightarrow> uint16_t \<Rightarrow> uint16_t \<Rightarrow> bool option" where
  "lv_table_get_cell_merge_right t row col =
     (if row_cnt t \<le> row \<or> col_cnt t \<le> col then Some False
      else case cell_at t (cell_index t row col) of
             None \<Rightarrow> None
           | Some None \<Rightarrow> Some False
           | Some (Some (format, txt)) \<Rightarrow> Some (if right_merge format then True else False))"

section \<open>Roller: lemmas and properties\<close>

subsection \<open>Word arithmetic of the page centring\<close>

lemma unat_real_id_cnt: "unat (real_id_cnt P r) = unat (option_cnt r) div P"
proof -
  have "unat (option_cnt r) div P \<le> unat (option_cnt r)" by (rule div_le_dividend)
  also have "\<dots> < 2 ^ 16" using unsigned_less [of "option_cnt r"] by simp
  finally show ?thesis by (simp add: real_id_cnt_def unat_of_nat)
qed

lemma page_cancel:
  "(word_of_int (uint page * int P + (if page \<noteq> 0 then uint s - uint page * int P else uint s)) :: uint16_t) = s"
  by (cases "page = 0") simp_all

lemma centre_no_wrap:
  assumes "0 < P" and "0 < n" and "n = m div P" and "m < (2::nat) ^ 16" and "j < n"
  shows "j + (P div 2) * n < m \<and> j + (P div 2) * n < (2::nat) ^ 16"
proof -
  have "n * P \<le> m" unfolding assms(3) by (rule div_times_less_eq_dividend)
  have "P div 2 + 1 \<le> P" using assms(1) by simp
  then have "(P div 2 + 1) * n \<le> P * n" by (rule mult_le_mono1)
  then have "j + (P div 2) * n < P * n" using assms(5) by simp
  with \<open>n * P \<le> m\<close> have "j + (P div 2) * n < m" by (simp add: mult.commute)
  with assms(4) show ?thesis by simp
qed

lemma unat_centre:
  assumes P: "0 < P" and cnt: "real_id_cnt P r \<noteq> 0"
  shows "unat (s mod real_id_cnt P r + word_of_nat (P div 2) * real_id_cnt P r)
         = unat s mod unat (real_id_cnt P r) + (P div 2) * unat (real_id_cnt P r)"
    and "unat s mod unat (real_id_cnt P r) + (P div 2) * unat (real_id_cnt P r) < unat (option_cnt r)"
proof -
  let ?n = "unat (real_id_cnt P r)"
  have n: "?n = unat (option_cnt r) div P" by (rule unat_real_id_cnt)
  have n0: "0 < ?n" using cnt by (simp add: unat_gt_0)
  have m: "unat (option_cnt r) < 2 ^ 16" using unsigned_less [of "option_cnt r"] by simp
  have j: "unat s mod ?n < ?n" using n0 by simp
  from centre_no_wrap [OF P n0 n m j]
  have b: "unat s mod ?n + (P div 2) * ?n < unat (option_cnt r)"
    and w: "unat s mod ?n + (P div 2) * ?n < 2 ^ 16" by simp_all
  show "unat s mod ?n + (P div 2) * ?n < unat (option_cnt r)" by (rule b)
  have "s mod real_id_cnt P r + word_of_nat (P div 2) * real_id_cnt P r
        = word_of_nat (unat s mod ?n + (P div 2) * ?n)"
  proof -
    have "word_of_nat (unat s mod ?n) = s mod real_id_cnt P r"
      by (simp add: unat_mod [symmetric])
    moreover have "(word_of_nat ?n :: uint16_t) = real_id_cnt P r" by simp
    ultimately show ?thesis by (simp only: of_nat_add of_nat_mult)
  qed
  then show "unat (s mod real_id_cnt P r + word_of_nat (P div 2) * real_id_cnt P r)
         = unat s mod ?n + (P div 2) * ?n"
    using w by (simp only: unat_of_nat) simp
qed

lemma centre_mod:
  assumes P: "0 < P" and cnt: "real_id_cnt P r \<noteq> 0"
  shows "(s mod real_id_cnt P r + word_of_nat (P div 2) * real_id_cnt P r) mod real_id_cnt P r
         = s mod real_id_cnt P r"
proof -
  have "unat ((s mod real_id_cnt P r + word_of_nat (P div 2) * real_id_cnt P r) mod real_id_cnt P r)
        = unat (s mod real_id_cnt P r)"
    by (simp only: unat_mod unat_centre(1) [OF P cnt]) simp
  then show ?thesis by (simp only: word_unat_eq_iff)
qed

lemma inf_normalize_infinite:
  assumes P: "0 < P" and cnt: "real_id_cnt P r \<noteq> 0" and m: "mode r = LV_ROLLER_MODE_INFINITE"
  shows "inf_normalize P r =
         Some (r\<lparr>sel_opt_id := sel_opt_id r mod real_id_cnt P r + word_of_nat (P div 2) * real_id_cnt P r,
                  sel_opt_id_ori := sel_opt_id r mod real_id_cnt P r + word_of_nat (P div 2) * real_id_cnt P r\<rparr>)"
  using cnt m by (simp add: inf_normalize_def Let_def centre_mod [OF P cnt])

lemma real_id_cnt_upd [simp]:
  "real_id_cnt P (r\<lparr>sel_opt_id := a\<rparr>) = real_id_cnt P r"
  "real_id_cnt P (r\<lparr>sel_opt_id_ori := b\<rparr>) = real_id_cnt P r"
  by (simp_all add: real_id_cnt_def)

subsection \<open>The wraparound normaliser\<close>

text \<open>
  C7. In Infinite mode the normaliser is idempotent on the selection: a second run right
  after the first changes nothing, and the value it leaves in \<^verbatim>\<open>sel_opt_id\<close> and in
  \<^verbatim>\<open>sel_opt_id_ori\<close> is \<open>(sel_opt_id mod real_id_cnt) + (P div 2) * real_id_cnt\<close>
  with \<open>real_id_cnt = option_cnt div P\<close>. The normaliser divides by \<open>real_id_cnt\<close>,
  which therefore is not zero.
\<close>

theorem inf_normalize_idempotent:
  assumes P: "0 < P" and m: "mode r = LV_ROLLER_MODE_INFINITE" and cnt: "real_id_cnt P r \<noteq> 0"
  shows "\<exists>r1. inf_normalize P r = Some r1 \<and> inf_normalize P r1 = Some r1
           \<and> sel_opt_id_ori r1 = sel_opt_id r1
           \<and> unat (sel_opt_id r1) =
               unat (sel_opt_id r) mod unat (real_id_cnt P r) + (P div 2) * unat (real_id_cnt P r)"
proof -
  let ?c = "sel_opt_id r mod real_id_cnt P r + word_of_nat (P div 2) * real_id_cnt P r"
  let ?r1 = "r\<lparr>sel_opt_id := ?c, sel_opt_id_ori := ?c\<rparr>"
  have 1: "inf_normalize P r = Some ?r1" by (rule inf_normalize_infinite [OF P cnt m])
  have cnt1: "real_id_cnt P ?r1 \<noteq> 0" using cnt by simp
  have m1: "mode ?r1 = LV_ROLLER_MODE_INFINITE" using m by simp
  have 2: "inf_normalize P ?r1 = Some ?r1"
    by (simp add: inf_normalize_infinite [OF P cnt1 m1] centre_mod [OF P cnt])
  have 3: "unat (sel_opt_id ?r1) =
      unat (sel_opt_id r) mod unat (real_id_cnt P r) + (P div 2) * unat (real_id_cnt P r)"
    by (simp add: unat_centre(1) [OF P cnt])
  from 1 2 3 show ?thesis by simp
qed

theorem inf_normalize_idempotent_witness:
  "\<exists>r1. inf_normalize 5 \<lparr>option_cnt = 15, sel_opt_id = 13, sel_opt_id_ori = 2,
             mode = LV_ROLLER_MODE_INFINITE, moved = False, label_txt = []\<rparr> = Some r1
        \<and> inf_normalize 5 r1 = Some r1
        \<and> sel_opt_id_ori r1 = sel_opt_id r1
        \<and> unat (sel_opt_id r1) = 7"
  using inf_normalize_idempotent [of 5 "\<lparr>option_cnt = 15, sel_opt_id = 13, sel_opt_id_ori = 2,
             mode = LV_ROLLER_MODE_INFINITE, moved = False, label_txt = []\<rparr>"]
  by (simp add: real_id_cnt_def)

subsection \<open>Setting and reading the selection\<close>

lemma set_selected_ignores_page:
  "lv_roller_set_selected P e r i anim =
     refr_position P e
       (r\<lparr>sel_opt_id := (if i < option_cnt r then i else option_cnt r - 1),
          sel_opt_id_ori := (if i < option_cnt r then i else option_cnt r - 1)\<rparr>) anim"
  by (simp add: lv_roller_set_selected_def Let_def page_cancel)

text \<open>
  C1. The claim: in Infinite mode \<^verbatim>\<open>lv_roller_set_selected\<close> reads the id relative to the
  page that is displayed, maps it into the absolute index space of that page and then
  clamps. The comment in the code says the same (``interpret the new ID relative to the
  currently visible page''), but the code subtracts the page offset from the id and adds
  the same offset again, so the id is stored as it came. With three options on five
  pages and the selection on the middle page (absolute id 7, page 2), the animated call
  for id 2 stores the absolute id 2, on page 0, and not 8.
\<close>

theorem set_selected_infinite_leaves_displayed_page:
  "lv_roller_set_selected 5
      \<lparr>anim_time = 200, font_h = 16, line_space = 4,
       txt_encoded_next = (\<lambda>t i. (of_nat (of_char (t ! i)), Suc i))\<rparr>
      \<lparr>option_cnt = 15, sel_opt_id = 7, sel_opt_id_ori = 7,
       mode = LV_ROLLER_MODE_INFINITE, moved = False, label_txt = []\<rparr>
      2 LV_ANIM_ON
   = Some \<lparr>option_cnt = 15, sel_opt_id = 2, sel_opt_id_ori = 2,
       mode = LV_ROLLER_MODE_INFINITE, moved = False, label_txt = []\<rparr>
   \<and> unat (7 :: uint16_t)
        div unat (lv_roller_get_option_cnt 5
          \<lparr>option_cnt = 15, sel_opt_id = 7, sel_opt_id_ori = 7,
           mode = LV_ROLLER_MODE_INFINITE, moved = False, label_txt = []\<rparr>) = 2
   \<and> unat (2 :: uint16_t)
        div unat (lv_roller_get_option_cnt 5
          \<lparr>option_cnt = 15, sel_opt_id = 7, sel_opt_id_ori = 7,
           mode = LV_ROLLER_MODE_INFINITE, moved = False, label_txt = []\<rparr>) = 0"
  by (simp add: lv_roller_set_selected_def refr_position_def lv_roller_get_option_cnt_def Let_def)

text \<open>
  What the code does keep: for every id below the logical option count the call returns
  and \<^verbatim>\<open>lv_roller_get_selected\<close> then answers that id; the stored absolute id is the id
  itself, or the id on the middle page when the normaliser runs (no animation).
\<close>

lemma set_selected_logical_id:
  assumes P: "0 < P" and m: "mode r = LV_ROLLER_MODE_INFINITE"
    and i: "i < lv_roller_get_option_cnt P r"
  shows "\<exists>r'. lv_roller_set_selected P e r i anim = Some r'
            \<and> lv_roller_get_selected P r' = Some i
            \<and> sel_opt_id r' =
                (if anim = LV_ANIM_OFF \<or> anim_time e = 0
                 then i + word_of_nat (P div 2) * lv_roller_get_option_cnt P r else i)"
proof -
  have cnt_eq: "lv_roller_get_option_cnt P r = real_id_cnt P r"
    using m by (simp add: lv_roller_get_option_cnt_def real_id_cnt_def)
  have cnt: "real_id_cnt P r \<noteq> 0" using i cnt_eq by auto
  have "unat (real_id_cnt P r) \<le> unat (option_cnt r)"
    by (simp add: unat_real_id_cnt)
  then have "real_id_cnt P r \<le> option_cnt r" by (simp add: word_le_nat_alt)
  with i cnt_eq have lt: "i < option_cnt r" by simp
  let ?r0 = "r\<lparr>sel_opt_id := i, sel_opt_id_ori := i\<rparr>"
  have s: "lv_roller_set_selected P e r i anim = refr_position P e ?r0 anim"
    using m lt by (simp add: lv_roller_set_selected_def Let_def page_cancel)
  have imod: "i mod real_id_cnt P r = i" using i cnt_eq by (simp add: word_mod_less_divisor mod_word_less)
  show ?thesis
  proof (cases "anim = LV_ANIM_OFF \<or> anim_time e = 0")
    case True
    have cnt0: "real_id_cnt P ?r0 \<noteq> 0" using cnt by simp
    have m0: "mode ?r0 = LV_ROLLER_MODE_INFINITE" using m by simp
    have recentre: "(i + word_of_nat (P div 2) * real_id_cnt P r) mod real_id_cnt P r = i"
      using centre_mod [OF P cnt, of i] by (simp add: imod)
    show ?thesis using True cnt
      by (simp add: s refr_position_def inf_normalize_infinite [OF P cnt0 m0] imod cnt_eq
          lv_roller_get_selected_def m recentre Let_def del: disj_not1)
  next
    case False
    then show ?thesis using cnt
      by (simp add: s refr_position_def lv_roller_get_selected_def m imod)
  qed
qed

text \<open>
  C2, as stated: in Infinite mode \<^verbatim>\<open>lv_roller_get_selected\<close> returns \<^verbatim>\<open>sel_opt_id\<close>
  divided by the number of pages. With two options on five pages and the absolute id 6
  the getter answers 0, while 6 divided by 5 is 1.
\<close>

theorem get_selected_div_counterexample:
  "lv_roller_get_selected 5 \<lparr>option_cnt = 10, sel_opt_id = 6, sel_opt_id_ori = 6,
      mode = LV_ROLLER_MODE_INFINITE, moved = False, label_txt = []\<rparr>
   \<noteq> Some (word_of_nat (6 div 5))"
  by (simp add: lv_roller_get_selected_def real_id_cnt_def)

text \<open>
  C2, amended. In Infinite mode \<^verbatim>\<open>lv_roller_get_selected\<close> returns the stored
  \<^verbatim>\<open>sel_opt_id\<close> modulo \<open>option_cnt div P\<close>, and \<^verbatim>\<open>lv_roller_get_option_cnt\<close> returns
  \<open>option_cnt div P\<close>: the logical values. The option count holds at least one page.
\<close>

theorem getters_infinite:
  assumes m: "mode r = LV_ROLLER_MODE_INFINITE" and c: "P \<le> unat (option_cnt r)" and P: "0 < P"
  shows "\<exists>v. lv_roller_get_selected P r = Some v
           \<and> unat v = unat (sel_opt_id r) mod (unat (option_cnt r) div P)
           \<and> unat (lv_roller_get_option_cnt P r) = unat (option_cnt r) div P"
proof -
  have "0 < unat (option_cnt r) div P" using c P by (simp add: div_greater_zero_iff)
  then have "0 < unat (real_id_cnt P r)" by (simp add: unat_real_id_cnt)
  then have cnt: "real_id_cnt P r \<noteq> 0" by (auto simp: unat_gt_0)
  have g: "lv_roller_get_option_cnt P r = real_id_cnt P r"
    using m by (simp add: lv_roller_get_option_cnt_def real_id_cnt_def)
  show ?thesis using m cnt
    by (simp add: lv_roller_get_selected_def g unat_mod unat_real_id_cnt)
qed

theorem getters_infinite_witness:
  "\<exists>v. lv_roller_get_selected 5 \<lparr>option_cnt = 10, sel_opt_id = 7, sel_opt_id_ori = 7,
           mode = LV_ROLLER_MODE_INFINITE, moved = False, label_txt = []\<rparr> = Some v
       \<and> unat v = 1
       \<and> unat (lv_roller_get_option_cnt 5 \<lparr>option_cnt = 10, sel_opt_id = 7, sel_opt_id_ori = 7,
           mode = LV_ROLLER_MODE_INFINITE, moved = False, label_txt = []\<rparr>) = 2"
  using getters_infinite [of "\<lparr>option_cnt = 10, sel_opt_id = 7, sel_opt_id_ori = 7,
           mode = LV_ROLLER_MODE_INFINITE, moved = False, label_txt = []\<rparr>" 5]
  by simp

subsection \<open>Copying the selected line\<close>

declare line_start.simps [simp del] copy_line.simps [simp del] tap_lines.simps [simp del]

lemma skip_lines_Nil [simp]: "skip_lines n [] = []"
  by (cases n) simp_all

lemma line_start_skip:
  "line \<le> sel \<Longrightarrow> i \<le> length opt_txt \<Longrightarrow>
   drop (line_start opt_txt sel i line) opt_txt = skip_lines (unat sel - unat line) (drop i opt_txt)"
proof (induction opt_txt sel i line rule: line_start.induct)
  case (1 opt_txt sel i line)
  show ?case
  proof (cases "i < length opt_txt \<and> line \<noteq> sel")
    case True
    then have lt: "line < sel" using "1.prems"(1) by (simp add: less_le)
    then have u: "unat line < unat sel" by (simp add: word_less_nat_alt)
    have "unat sel < 2 ^ 16" using unsigned_less [of sel] by simp
    with u have "Suc (unat line) < 2 ^ 16" by simp
    then have inc: "unat (line + 1) = Suc (unat line)"
      by (simp add: unat_word_ariths)
    have le': "(if opt_txt ! i = newline then line + 1 else line) \<le> sel"
      using u inc by (simp add: word_le_nat_alt)
    have d: "drop i opt_txt = opt_txt ! i # drop (Suc i) opt_txt"
      using True by (simp add: Cons_nth_drop_Suc)
    obtain k where k: "unat sel - unat line = Suc k" using u by (metis Suc_diff_Suc)
    have k': "unat sel - unat (line + 1) = k" using k inc by simp
    have "drop (line_start opt_txt sel i line) opt_txt
          = drop (line_start opt_txt sel (Suc i) (if opt_txt ! i = newline then line + 1 else line)) opt_txt"
      using True by (subst line_start.simps) simp
    also have "\<dots> = skip_lines (unat sel - unat (if opt_txt ! i = newline then line + 1 else line))
                        (drop (Suc i) opt_txt)"
      using True le' by (intro "1.IH") simp_all
    also have "\<dots> = skip_lines (unat sel - unat line) (drop i opt_txt)"
      by (simp add: d k k')
    finally show ?thesis .
  next
    case False
    then show ?thesis using "1.prems"
      by (subst line_start.simps) auto
  qed
qed

lemma selected_line_start:
  "takeWhile (\<lambda>ch. ch \<noteq> newline) (drop (line_start (label_txt r) (sel_opt_id r) 0 0) (label_txt r))
   = selected_line r"
  using line_start_skip [of 0 "sel_opt_id r" 0 "label_txt r"] by (simp add: selected_line_def)

lemma copy_line_result:
  assumes "0 < buf_size" and "buf_size \<le> length buf" and "c \<le> buf_size - 1"
  shows "copy_line opt_txt buf_size i c buf =
         Some (min (c + length (takeWhile (\<lambda>ch. ch \<noteq> newline) (drop i opt_txt))) (buf_size - 1),
               take c buf
               @ take (min (c + length (takeWhile (\<lambda>ch. ch \<noteq> newline) (drop i opt_txt))) (buf_size - 1) - c)
                   (takeWhile (\<lambda>ch. ch \<noteq> newline) (drop i opt_txt))
               @ drop (min (c + length (takeWhile (\<lambda>ch. ch \<noteq> newline) (drop i opt_txt))) (buf_size - 1)) buf)"
  using assms
proof (induction opt_txt buf_size i c buf rule: copy_line.induct)
  case (1 opt_txt buf_size i c buf)
  let ?line = "\<lambda>i. takeWhile (\<lambda>ch. ch \<noteq> newline) (drop i opt_txt)"
  show ?case
  proof (cases "i < length opt_txt \<and> opt_txt ! i \<noteq> newline")
    case True
    then have l: "?line i = opt_txt ! i # ?line (Suc i)"
      by (simp add: Cons_nth_drop_Suc [symmetric])
    show ?thesis
    proof (cases "buf_size - 1 \<le> c")
      case full: True
      then have "c = buf_size - 1" using "1.prems" by simp
      then show ?thesis using True "1.prems"
        by (subst copy_line.simps) (simp add: l min_def)
    next
      case room: False
      then have cl: "c < length buf" and c1: "Suc c \<le> buf_size - 1" using "1.prems" by simp_all
      let ?c' = "min (Suc c + length (?line (Suc i))) (buf_size - 1)"
      have c': "Suc c \<le> ?c'" using c1 by simp
      have ih: "copy_line opt_txt buf_size (Suc i) (Suc c) (buf[c := opt_txt ! i]) =
         Some (?c', take (Suc c) (buf[c := opt_txt ! i]) @ take (?c' - Suc c) (?line (Suc i))
               @ drop ?c' (buf[c := opt_txt ! i]))"
        using True room cl c1 "1.prems" by (intro "1.IH") simp_all
      have t: "take (Suc c) (buf[c := opt_txt ! i]) = take c buf @ [opt_txt ! i]"
        using cl by (simp add: take_Suc_conv_app_nth)
      have d: "drop ?c' (buf[c := opt_txt ! i]) = drop ?c' buf"
        using c' by (simp add: drop_update_cancel del: min_less_iff_conj)
      have e: "min (c + length (?line i)) (buf_size - 1) = ?c'" by (simp add: l)
      have tk: "take (?c' - c) (?line i) = opt_txt ! i # take (?c' - Suc c) (?line (Suc i))"
        using c' by (simp only: l) (simp add: take_Cons' Suc_diff_le)
      show ?thesis using True room cl
        by (subst copy_line.simps) (simp only: ih e t d tk, simp)
    qed
  next
    case False
    then have "?line i = []"
      by (cases "i < length opt_txt") (auto simp: Cons_nth_drop_Suc [symmetric])
    then show ?thesis using False "1.prems"
      by (subst copy_line.simps) (auto simp: min_def)
  qed
qed

text \<open>
  C8. With \<^verbatim>\<open>buf_size > 0\<close> and a destination of at least \<^verbatim>\<open>buf_size\<close> bytes,
  \<^verbatim>\<open>lv_roller_get_selected_str\<close> returns, having copied the first
  \<open>min (length line) (buf_size - 1)\<close> bytes of the selected line (a longer line is cut, not
  refused), and writes the terminating zero byte right after them, at an index below
  \<^verbatim>\<open>buf_size\<close>; the rest of the destination is untouched.
\<close>

theorem get_selected_str_truncates:
  assumes "0 < buf_size" and "buf_size \<le> length buf"
  shows "\<exists>buf'. lv_roller_get_selected_str r buf buf_size = Some buf'
           \<and> min (length (selected_line r)) (buf_size - 1) < buf_size
           \<and> length buf' = length buf
           \<and> take (min (length (selected_line r)) (buf_size - 1)) buf'
               = take (min (length (selected_line r)) (buf_size - 1)) (selected_line r)
           \<and> buf' ! (min (length (selected_line r)) (buf_size - 1)) = CHR 0x00
           \<and> drop (Suc (min (length (selected_line r)) (buf_size - 1))) buf'
               = drop (Suc (min (length (selected_line r)) (buf_size - 1))) buf"
proof -
  let ?c = "min (length (selected_line r)) (buf_size - 1)"
  let ?b = "take 0 buf @ take (?c - 0) (selected_line r) @ drop ?c buf"
  have cp: "copy_line (label_txt r) buf_size (line_start (label_txt r) (sel_opt_id r) 0 0) 0 buf
        = Some (?c, ?b)"
    using copy_line_result [OF assms, of 0 "label_txt r" "line_start (label_txt r) (sel_opt_id r) 0 0"]
    by (simp add: selected_line_start)
  have c: "?c < buf_size" using assms(1) by simp
  have cb: "?c < length buf" using c assms(2) by simp
  have len: "length ?b = length buf" using cb by simp
  have r: "lv_roller_get_selected_str r buf buf_size = Some (?b[?c := CHR 0x00])"
    using cb by (simp add: lv_roller_get_selected_str_def Let_def cp del: min_less_iff_conj)
  have tl: "length (take ?c (selected_line r)) = ?c" by simp
  have 1: "take ?c (?b[?c := CHR 0x00]) = take ?c (selected_line r)"
    by (simp del: min_less_iff_conj)
  have 2: "(?b[?c := CHR 0x00]) ! ?c = CHR 0x00" using len cb by (simp del: min_less_iff_conj)
  have 3: "drop (Suc ?c) (?b[?c := CHR 0x00]) = drop (Suc ?c) buf"
    using cb by (simp add: drop_update_cancel min_absorb2 del: min_less_iff_conj)
  show ?thesis using r c len 1 2 3 by (simp del: min_less_iff_conj)
qed

theorem get_selected_str_truncates_witness:
  "\<exists>buf'. lv_roller_get_selected_str
           \<lparr>option_cnt = 2, sel_opt_id = 1, sel_opt_id_ori = 1, mode = LV_ROLLER_MODE_NORMAL,
            moved = False, label_txt = ''One'' @ [newline] @ ''Three''\<rparr> ''xxxx'' 3 = Some buf'
         \<and> length buf' = 4 \<and> take 2 buf' = ''Th'' \<and> buf' ! 2 = CHR 0x00
         \<and> drop 3 buf' = ''x''"
  using get_selected_str_truncates [of 3 "''xxxx''"
           "\<lparr>option_cnt = 2, sel_opt_id = 1, sel_opt_id_ori = 1, mode = LV_ROLLER_MODE_NORMAL,
            moved = False, label_txt = ''One'' @ [newline] @ ''Three''\<rparr>"]
  by (simp add: selected_line_def newline_def eval_nat_numeral)

subsection \<open>The selection stays in range\<close>

lemma inf_normalize_inv:
  assumes P: "0 < P" and inv: "roller_inv P r"
  shows "\<exists>r'. inf_normalize P r = Some r' \<and> roller_inv P r' \<and> same_shape r r'"
proof (cases "mode r = LV_ROLLER_MODE_INFINITE")
  case True
  then have cnt: "real_id_cnt P r \<noteq> 0" using inv by (simp add: roller_inv_def)
  have "sel_opt_id r mod real_id_cnt P r + word_of_nat (P div 2) * real_id_cnt P r < option_cnt r"
    using unat_centre [OF P cnt, of "sel_opt_id r"] by (simp add: word_less_nat_alt)
  then show ?thesis using cnt True
    by (simp add: inf_normalize_infinite [OF P cnt True] roller_inv_def same_shape_def real_id_cnt_def)
next
  case False
  then show ?thesis using inv by (simp add: inf_normalize_def same_shape_def)
qed

lemma refr_position_inv:
  assumes P: "0 < P" and inv: "roller_inv P r"
  shows "\<exists>r'. refr_position P e r anim = Some r' \<and> roller_inv P r' \<and> same_shape r r'"
  using inf_normalize_inv [OF P inv] inv by (simp add: refr_position_def same_shape_def)

lemma set_selected_inv:
  assumes P: "0 < P" and inv: "roller_inv P r"
  shows "\<exists>r'. lv_roller_set_selected P e r i anim = Some r' \<and> roller_inv P r' \<and> same_shape r r'"
proof -
  let ?s = "if i < option_cnt r then i else option_cnt r - 1"
  let ?r0 = "r\<lparr>sel_opt_id := ?s, sel_opt_id_ori := ?s\<rparr>"
  have nz: "option_cnt r \<noteq> 0" using inv by (auto simp: roller_inv_def)
  then have "option_cnt r - 1 < option_cnt r" by (simp add: word_less_nat_alt unat_minus_one unat_gt_0)
  then have "?s < option_cnt r" by simp
  then have inv0: "roller_inv P ?r0" using inv by (simp add: roller_inv_def)
  have eq: "lv_roller_set_selected P e r i anim = refr_position P e ?r0 anim"
    by (simp add: lv_roller_set_selected_def Let_def page_cancel)
  show ?thesis using refr_position_inv [OF P inv0, of e anim]
    by (simp add: eq same_shape_def)
qed

lemma release_handler_inv:
  assumes P: "0 < P" and inv: "roller_inv P r" and res: "release_handler P e r inp = Some r'"
  shows "roller_inv P r' \<and> same_shape r r'"
proof -
  let ?r1 = "if indev_type inp = LV_INDEV_TYPE_ENCODER \<or> indev_type inp = LV_INDEV_TYPE_KEYPAD
             then r\<lparr>sel_opt_id_ori := sel_opt_id r\<rparr> else r"
  have inv1: "roller_inv P ?r1" using inv by (simp add: roller_inv_def)
  have sh1: "same_shape r ?r1" by (simp add: same_shape_def)
  have "r' = ?r1 \<or> (\<exists>n. lv_roller_set_selected P e ?r1 n LV_ANIM_ON = Some r')"
    using res unfolding release_handler_def Let_def
    by (auto split: if_splits option.splits)
  then show ?thesis
  proof
    assume "r' = ?r1"
    then show ?thesis using inv1 sh1 by simp
  next
    assume "\<exists>n. lv_roller_set_selected P e ?r1 n LV_ANIM_ON = Some r'"
    then obtain n where n: "lv_roller_set_selected P e ?r1 n LV_ANIM_ON = Some r'" ..
    from set_selected_inv [OF P inv1, of e n LV_ANIM_ON] n
    have "roller_inv P r'" and "same_shape ?r1 r'" by auto
    then show ?thesis using sh1 by (simp add: same_shape_def)
  qed
qed

lemma revert_inv:
  assumes P: "0 < P" and inv: "roller_inv P r"
    and res: "refr_position P e (r\<lparr>sel_opt_id := sel_opt_id_ori r\<rparr>) anim = Some r'"
  shows "roller_inv P r' \<and> same_shape r r'"
proof -
  have inv0: "roller_inv P (r\<lparr>sel_opt_id := sel_opt_id_ori r\<rparr>)"
    using inv by (simp add: roller_inv_def)
  from refr_position_inv [OF P inv0, of e anim] res show ?thesis
    by (auto simp: same_shape_def)
qed

lemma keep_ori_inv:
  assumes P: "0 < P" and inv: "roller_inv P r"
    and res: "lv_roller_set_selected P e r i anim = Some r1"
  shows "roller_inv P (r1\<lparr>sel_opt_id_ori := sel_opt_id_ori r\<rparr>)
         \<and> same_shape r (r1\<lparr>sel_opt_id_ori := sel_opt_id_ori r\<rparr>)"
  using set_selected_inv [OF P inv, of e i anim] res inv
  by (auto simp: roller_inv_def same_shape_def)

lemma signal_inv:
  assumes P: "0 < P" and inv: "roller_inv P r" and res: "lv_roller_signal P e r s = Some r'"
  shows "roller_inv P r' \<and> same_shape r r'"
proof (cases s)
  case LV_SIGNAL_STYLE_CHG
  with refr_position_inv [OF P inv, of e LV_ANIM_OFF] res show ?thesis by auto
next
  case (LV_SIGNAL_COORD_CHG b)
  with refr_position_inv [OF P inv, of e LV_ANIM_OFF] res inv show ?thesis
    by (auto simp: same_shape_def split: if_splits)
next
  case LV_SIGNAL_PRESSED
  with res inv show ?thesis by (auto simp: roller_inv_def same_shape_def real_id_cnt_def)
next
  case (LV_SIGNAL_PRESSING py)
  with res inv show ?thesis
    by (auto simp: roller_inv_def same_shape_def real_id_cnt_def split: if_splits)
next
  case (LV_SIGNAL_RELEASED inp)
  with release_handler_inv [OF P inv] res show ?thesis by simp
next
  case (LV_SIGNAL_FOCUS editing ty)
  with res have "r' = r \<or> r' = r\<lparr>sel_opt_id_ori := sel_opt_id r\<rparr>
      \<or> refr_position P e (r\<lparr>sel_opt_id := sel_opt_id_ori r\<rparr>) LV_ANIM_ON = Some r'"
    by (auto split: if_splits)
  then show ?thesis using inv revert_inv [OF P inv]
    by (auto simp: roller_inv_def same_shape_def)
next
  case LV_SIGNAL_DEFOCUS
  with res have "r' = r
      \<or> refr_position P e (r\<lparr>sel_opt_id := sel_opt_id_ori r\<rparr>) LV_ANIM_ON = Some r'"
    by (auto split: if_splits)
  then show ?thesis using inv revert_inv [OF P inv] by (auto simp: same_shape_def)
next
  case (LV_SIGNAL_CONTROL c)
  with res have "r' = r \<or> (\<exists>i r1. lv_roller_set_selected P e r i LV_ANIM_ON = Some r1
      \<and> r' = r1\<lparr>sel_opt_id_ori := sel_opt_id_ori r\<rparr>)"
    by (auto simp: Let_def split: if_splits option.splits)
  then show ?thesis using inv keep_ori_inv [OF P inv] by (auto simp: same_shape_def)
next
  case LV_SIGNAL_GET_SELF_SIZE
  with res inv show ?thesis by (auto simp: same_shape_def)
next
  case LV_SIGNAL_OTHER
  with res inv show ?thesis by (auto simp: same_shape_def)
qed

lemma roller_step_inv:
  assumes P: "0 < P" and inv: "roller_inv P r" and res: "roller_step P e r x = Some r'"
  shows "roller_inv P r' \<and> same_shape r r'"
proof (cases x)
  case (Set_selected i anim)
  with set_selected_inv [OF P inv, of e i anim] res show ?thesis by auto
next
  case (Signal s)
  with signal_inv [OF P inv] res show ?thesis by simp
next
  case Anim_ready
  with inf_normalize_inv [OF P inv] res show ?thesis by (auto simp: scroll_anim_ready_cb_def)
qed

lemma roller_run_inv:
  "0 < P \<Longrightarrow> roller_inv P r \<Longrightarrow> roller_run P e r ops = Some r'
   \<Longrightarrow> roller_inv P r' \<and> same_shape r r'"
proof (induction ops arbitrary: r)
  case Nil
  then show ?case by (simp add: same_shape_def)
next
  case (Cons x xs)
  from Cons.prems(3) obtain r1 where 1: "roller_step P e r x = Some r1"
    and 2: "roller_run P e r1 xs = Some r'"
    by (auto split: option.splits)
  from roller_step_inv [OF Cons.prems(1,2) 1] have i1: "roller_inv P r1" and s1: "same_shape r r1"
    by simp_all
  from Cons.IH [OF Cons.prems(1) i1 2] s1 show ?case by (simp add: same_shape_def)
qed

lemma set_selected_run_total:
  "0 < P \<Longrightarrow> roller_inv P r \<Longrightarrow>
   \<exists>r'. roller_run P e r (map (\<lambda>(i, anim). Set_selected i anim) calls) = Some r'"
proof (induction calls arbitrary: r)
  case Nil
  then show ?case by simp
next
  case (Cons c cs)
  obtain i anim where c: "c = (i, anim)" by (cases c)
  from set_selected_inv [OF Cons.prems, of e i anim] obtain r1
    where 1: "lv_roller_set_selected P e r i anim = Some r1" and i1: "roller_inv P r1" by auto
  from Cons.IH [OF Cons.prems(1) i1] show ?case by (simp add: c 1)
qed

text \<open>
  C4. On a roller whose selection and snapshot are below \<^verbatim>\<open>option_cnt\<close> (as
  \<^verbatim>\<open>lv_roller_set_options\<close> leaves it), every sequence of calls of
  \<^verbatim>\<open>lv_roller_set_selected\<close>, of signals (directional control, focus and defocus, release,
  press) and of animation-ready normalisations that returns leaves
  \<open>sel_opt_id < option_cnt\<close>; and every sequence of \<^verbatim>\<open>lv_roller_set_selected\<close> calls
  returns, in either mode.
\<close>

theorem selection_stays_in_range:
  assumes "0 < P" and "roller_inv P r"
  shows "(\<forall>ops r'. roller_run P e r ops = Some r' \<longrightarrow>
            sel_opt_id r' < option_cnt r' \<and> sel_opt_id_ori r' < option_cnt r'
            \<and> option_cnt r' = option_cnt r)
       \<and> (\<forall>calls. \<exists>r'. roller_run P e r (map (\<lambda>(i, anim). Set_selected i anim) calls) = Some r'
            \<and> sel_opt_id r' < option_cnt r')"
proof (rule conjI)
  show "\<forall>ops r'. roller_run P e r ops = Some r' \<longrightarrow>
            sel_opt_id r' < option_cnt r' \<and> sel_opt_id_ori r' < option_cnt r'
            \<and> option_cnt r' = option_cnt r"
  proof (intro allI impI)
    fix ops r' assume "roller_run P e r ops = Some r'"
    from roller_run_inv [OF assms this]
    show "sel_opt_id r' < option_cnt r' \<and> sel_opt_id_ori r' < option_cnt r'
          \<and> option_cnt r' = option_cnt r"
      by (auto simp: roller_inv_def same_shape_def)
  qed
next
  show "\<forall>calls. \<exists>r'. roller_run P e r (map (\<lambda>(i, anim). Set_selected i anim) calls) = Some r'
            \<and> sel_opt_id r' < option_cnt r'"
  proof
    fix calls
    from set_selected_run_total [OF assms, of e calls] obtain r'
      where r: "roller_run P e r (map (\<lambda>(i, anim). Set_selected i anim) calls) = Some r'" ..
    from roller_run_inv [OF assms r] have "sel_opt_id r' < option_cnt r'" by (simp add: roller_inv_def)
    with r show "\<exists>r'. roller_run P e r (map (\<lambda>(i, anim). Set_selected i anim) calls) = Some r'
              \<and> sel_opt_id r' < option_cnt r'" by blast
  qed
qed

theorem selection_stays_in_range_witness:
  "roller_inv 5 \<lparr>option_cnt = 15, sel_opt_id = 6, sel_opt_id_ori = 6,
        mode = LV_ROLLER_MODE_INFINITE, moved = False, label_txt = []\<rparr>
   \<and> roller_run 5
        \<lparr>anim_time = 200, font_h = 16, line_space = 4,
         txt_encoded_next = (\<lambda>t i. (of_nat (of_char (t ! i)), Suc i))\<rparr>
        \<lparr>option_cnt = 15, sel_opt_id = 6, sel_opt_id_ori = 6,
         mode = LV_ROLLER_MODE_INFINITE, moved = False, label_txt = []\<rparr>
        [Set_selected 2 LV_ANIM_ON, Signal (LV_SIGNAL_CONTROL LV_KEY_DOWN), Anim_ready]
      = Some \<lparr>option_cnt = 15, sel_opt_id = 6, sel_opt_id_ori = 6,
         mode = LV_ROLLER_MODE_INFINITE, moved = False, label_txt = []\<rparr>
   \<and> (6 :: uint16_t) < 15"
proof -
  let ?r = "\<lparr>option_cnt = 15, sel_opt_id = 6, sel_opt_id_ori = 6,
        mode = LV_ROLLER_MODE_INFINITE, moved = False, label_txt = []\<rparr>"
  let ?e = "\<lparr>anim_time = 200, font_h = 16, line_space = 4,
         txt_encoded_next = (\<lambda>t i. (of_nat (of_char (t ! i)), Suc i))\<rparr>"
  have inv: "roller_inv 5 ?r" by (simp add: roller_inv_def real_id_cnt_def)
  have run: "roller_run 5 ?e ?r
      [Set_selected 2 LV_ANIM_ON, Signal (LV_SIGNAL_CONTROL LV_KEY_DOWN), Anim_ready] = Some ?r"
    by (simp add: lv_roller_set_selected_def refr_position_def scroll_anim_ready_cb_def
        inf_normalize_def real_id_cnt_def Let_def)
  have P: "0 < (5::nat)" by simp
  note all = selection_stays_in_range [OF P inv, of ?e, THEN conjunct1, rule_format, OF run]
  then have "sel_opt_id ?r < option_cnt ?r" by (rule conjunct1)
  with inv run show ?thesis by simp
qed

text \<open>\<^verbatim>\<open>lv_roller_set_options\<close> establishes the invariant whenever it leaves an option count.\<close>

lemma set_options_inv:
  assumes "0 < P" "lv_roller_set_options P r options m = Some r'" "option_cnt r' \<noteq> 0"
  shows "roller_inv P r'"
proof (cases "m = LV_ROLLER_MODE_NORMAL")
  case True
  then show ?thesis using assms(2,3)
    by (auto simp: lv_roller_set_options_def Let_def roller_inv_def word_neq_0_conv)
next
  case False
  define r4 where "r4 = r\<lparr>sel_opt_id := 0, sel_opt_id_ori := 0,
      option_cnt := foldl (\<lambda>cnt ch. if ch = newline then cnt + 1 else cnt) 0 options + 1,
      mode := LV_ROLLER_MODE_INFINITE,
      label_txt := butlast (concat (replicate P (options @ [newline]))),
      sel_opt_id := word_of_nat (P div 2 + 0)
         * (foldl (\<lambda>cnt ch. if ch = newline then cnt + 1 else cnt) 0 options + 1),
      option_cnt := (foldl (\<lambda>cnt ch. if ch = newline then cnt + 1 else cnt) 0 options + 1)
         * word_of_nat P\<rparr>"
  from False assms(2) obtain r5 where 5: "inf_normalize P r4 = Some r5"
    and r': "r' = r5\<lparr>sel_opt_id_ori := sel_opt_id r5\<rparr>"
    by (auto simp: lv_roller_set_options_def Let_def r4_def split: if_splits option.splits)
  have m4: "mode r4 = LV_ROLLER_MODE_INFINITE" by (simp add: r4_def)
  have cnt: "real_id_cnt P r4 \<noteq> 0" using 5 m4 by (auto simp: inf_normalize_def Let_def split: if_splits)
  have lt: "sel_opt_id r4 mod real_id_cnt P r4 + word_of_nat (P div 2) * real_id_cnt P r4 < option_cnt r4"
    using unat_centre [OF assms(1) cnt, of "sel_opt_id r4"] by (simp add: word_less_nat_alt)
  show ?thesis using 5 lt cnt m4
    by (auto simp: inf_normalize_infinite [OF assms(1) cnt m4] r' roller_inv_def real_id_cnt_def)
qed


section \<open>Table: lemmas and properties\<close>

subsection \<open>Row heights: what they leave alone, and when they are computed\<close>

declare merge_scan.simps [simp del] row_loop.simps [simp del] refr_rows.simps [simp del]
  copy_rows.simps [simp del]

lemma refr_rows_frame:
  "refr_rows e t i = Some t' \<Longrightarrow>
   cell_data t' = cell_data t \<and> col_cnt t' = col_cnt t \<and> row_cnt t' = row_cnt t
   \<and> col_w t' = col_w t \<and> length (row_h t') = length (row_h t)"
proof (induction e t i rule: refr_rows.induct)
  case (1 e t i)
  show ?case
  proof (cases "i < unat (row_cnt t)")
    case True
    with "1.prems" obtain h where h: "get_row_height e t (word_of_nat i) = Some h"
      and len: "i < length (row_h t)"
      and rec: "refr_rows e (t\<lparr>row_h := (row_h t)[i := h]\<rparr>) (Suc i) = Some t'"
      by (subst (asm) refr_rows.simps) (auto split: option.splits if_splits)
    from "1.IH" [OF True h len rec] show ?thesis by simp
  next
    case False
    with "1.prems" show ?thesis by (subst (asm) refr_rows.simps) simp
  qed
qed

lemma refr_size_frame:
  "refr_size e t = Some t' \<Longrightarrow>
   cell_data t' = cell_data t \<and> col_cnt t' = col_cnt t \<and> row_cnt t' = row_cnt t
   \<and> col_w t' = col_w t \<and> length (row_h t') = length (row_h t)"
  unfolding refr_size_def by (rule refr_rows_frame)

lemma merge_scan_total:
  "cell + unat (col_cnt t) \<le> length (cell_data t) + col \<Longrightarrow> unat (col_cnt t) \<le> length (col_w t)
   \<Longrightarrow> \<exists>res. merge_scan e t cell col cm w = Some res"
proof (induction e t cell col cm w rule: merge_scan.induct)
  case (1 e t cell col cm w)
  show ?case
  proof (cases "cm + col + 1 < unat (col_cnt t)")
    case True
    then have c: "cell + cm < length (cell_data t)" and k: "col + cm + 1 < length (col_w t)"
      using "1.prems" by simp_all
    show ?thesis
    proof (cases "cell_data t ! (cell + cm)")
      case None
      then show ?thesis using True c by (subst merge_scan.simps) (simp add: cell_at_def)
    next
      case (Some fc)
      obtain format tx where fc: "fc = (format, tx)" by (cases fc)
      show ?thesis
      proof (cases "right_merge format")
        case rm: True
        have ca: "cell_at t (cell + cm) = Some (Some (format, tx))"
          using c Some fc by (simp add: cell_at_def)
        have cw: "col_w_at t (col + cm + 1) = Some (col_w t ! (col + cm + 1))"
          using k by (simp add: col_w_at_def)
        have cw': "col_w_at t (Suc (col + cm)) = Some (col_w t ! Suc (col + cm))"
          using cw by simp
        from "1.IH" [OF True ca refl refl rm cw] "1.prems"
        show ?thesis using True rm by (subst merge_scan.simps) (simp add: ca cw')
      next
        case False
        then show ?thesis using True c Some fc by (subst merge_scan.simps) (simp add: cell_at_def)
      qed
    qed
  next
    case False
    then show ?thesis by (subst merge_scan.simps) simp
  qed
qed

lemma row_loop_total:
  "bound + col = cell + unat (col_cnt t) \<Longrightarrow> bound \<le> length (cell_data t)
   \<Longrightarrow> unat (col_cnt t) \<le> length (col_w t)
   \<Longrightarrow> \<exists>h. row_loop e t bound cell col h_max = Some h"
proof (induction e t bound cell col h_max rule: row_loop.induct)
  case (1 e t bound cell col h_max)
  show ?case
  proof (cases "cell < bound")
    case True
    then have c: "cell < length (cell_data t)" and k: "col < length (col_w t)"
      using "1.prems" by simp_all
    have next1: "bound + Suc col = Suc cell + unat (col_cnt t)" using "1.prems"(1) by simp
    show ?thesis
    proof (cases "cell_data t ! cell")
      case None
      then have ca: "cell_at t cell = Some None" using c by (simp add: cell_at_def)
      from "1.IH"(1) [OF True ca refl next1 "1.prems"(2,3)]
      show ?thesis using True by (subst row_loop.simps) (simp add: ca)
    next
      case (Some fc)
      obtain format tx where fc: "fc = (format, tx)" by (cases fc)
      have ca: "cell_at t cell = Some (Some (format, tx))" using c Some fc by (simp add: cell_at_def)
      have cw: "col_w_at t col = Some (col_w t ! col)" using k by (simp add: col_w_at_def)
      have "cell + unat (col_cnt t) \<le> length (cell_data t) + col" using "1.prems" by simp
      from merge_scan_total [OF this "1.prems"(3), of e 0 "col_w t ! col"]
      obtain cm tw where ms: "merge_scan e t cell col 0 (col_w t ! col) = Some (cm, tw)" by auto
      show ?thesis
      proof (cases "crop format")
        case cr: True
        from "1.IH"(2) [OF True ca refl refl cw ms refl cr next1 "1.prems"(2,3)]
        show ?thesis using True cr by (subst row_loop.simps) (simp add: ca cw ms)
      next
        case ncr: False
        have next2: "bound + Suc (col + cm) = Suc (cell + cm) + unat (col_cnt t)"
          using "1.prems"(1) by simp
        from "1.IH"(3) [OF True ca refl refl cw ms refl ncr refl refl next2 "1.prems"(2,3)]
        show ?thesis using True ncr by (subst row_loop.simps) (simp add: ca cw ms Let_def)
      qed
    qed
  next
    case False
    then show ?thesis by (subst row_loop.simps) simp
  qed
qed

lemma get_row_height_total:
  assumes inv: "table_inv t" and small: "unat (row_cnt t) * unat (col_cnt t) < 2 ^ 16"
    and i: "i < unat (row_cnt t)"
  shows "\<exists>h. get_row_height e t (word_of_nat i) = Some h"
proof -
  let ?c = "unat (col_cnt t)"
  have "Suc i * ?c \<le> unat (row_cnt t) * ?c" using i by (intro mult_le_mono1) simp
  then have b: "i * ?c + ?c \<le> unat (row_cnt t) * ?c" by simp
  with small have lt: "i * ?c + ?c < 2 ^ 16" by simp
  have "unat (row_cnt t) < 2 ^ 16" using unsigned_less [of "row_cnt t"] by simp
  with i have "i < 2 ^ 16" by simp
  then have ui: "unat (word_of_nat i :: uint16_t) = i" by (simp add: unat_of_nat)
  have us: "unat (word_of_nat (i * ?c) :: uint16_t) = i * ?c" using lt by (simp only: unat_of_nat) simp
  then have us': "unat (word_of_nat i * col_cnt t) = i * ?c" by simp
  have len: "i * ?c + ?c \<le> length (cell_data t)" using b inv by (simp add: table_inv_def)
  have cw: "?c \<le> length (col_w t)" using inv by (simp add: table_inv_def)
  from row_loop_total [of "i * ?c + ?c" 0 "i * ?c" t e, OF _ len cw]
  show ?thesis using lt by (simp add: get_row_height_def ui us' Let_def)
qed

lemma refr_rows_total:
  "table_inv t \<Longrightarrow> unat (row_cnt t) * unat (col_cnt t) < 2 ^ 16
   \<Longrightarrow> \<exists>t'. refr_rows e t i = Some t'"
proof (induction e t i rule: refr_rows.induct)
  case (1 e t i)
  show ?case
  proof (cases "i < unat (row_cnt t)")
    case True
    from get_row_height_total [OF "1.prems" True, of e]
    obtain h where h: "get_row_height e t (word_of_nat i) = Some h" ..
    have len: "i < length (row_h t)" using True "1.prems"(1) by (simp add: table_inv_def)
    have inv': "table_inv (t\<lparr>row_h := (row_h t)[i := h]\<rparr>)"
      using "1.prems"(1) by (simp add: table_inv_def)
    from "1.IH" [OF True h len inv'] "1.prems"(2)
    show ?thesis using True len by (subst refr_rows.simps) (simp add: h)
  next
    case False
    then show ?thesis by (subst refr_rows.simps) simp
  qed
qed

lemma refr_size_total:
  "table_inv t \<Longrightarrow> unat (row_cnt t) * unat (col_cnt t) < 2 ^ 16
   \<Longrightarrow> \<exists>t'. refr_size e t = Some t'"
  unfolding refr_size_def by (rule refr_rows_total)

lemma refr_size_inv:
  "refr_size e t = Some t' \<Longrightarrow> table_inv t \<Longrightarrow> table_inv t'"
  by (drule refr_size_frame) (simp add: table_inv_def)

subsection \<open>Allocation and array helpers\<close>

lemma mem_ok_alloc:
  "mem_ok mem \<Longrightarrow> lv_mem_alloc mem = (True, tl mem) \<and> mem_ok (tl mem)"
  by (cases mem) (simp_all add: lv_mem_alloc_def mem_ok_def)

lemma mem_ok_realloc:
  "mem_ok mem \<Longrightarrow> lv_mem_realloc mem = (True, tl mem) \<and> mem_ok (tl mem)"
  by (simp add: lv_mem_realloc_def mem_ok_alloc)

lemma length_resize [simp]: "length (resize n d xs) = n"
  by (simp add: resize_def)

lemma length_memcpy:
  "at + length src \<le> length dst \<Longrightarrow> length (lv_memcpy_small dst at src) = length dst"
  by (simp add: lv_memcpy_small_def)

lemma nth_memcpy:
  "at + length src \<le> length dst \<Longrightarrow> j < length dst \<Longrightarrow>
   lv_memcpy_small dst at src ! j =
     (if at \<le> j \<and> j < at + length src then src ! (j - at) else dst ! j)"
  by (auto simp: lv_memcpy_small_def nth_append)

lemma row_index_cases:
  assumes "c < (nc::nat)" and "m \<le> nc"
  shows "(row * nc \<le> r * nc + c \<and> r * nc + c < row * nc + m) \<longleftrightarrow> (r = row \<and> c < m)"
proof (cases r row rule: linorder_cases)
  case less
  then have "Suc r * nc \<le> row * nc" by (intro mult_le_mono1) simp
  then have "r * nc + c < row * nc" using assms(1) by simp
  then show ?thesis using less by simp
next
  case equal
  then show ?thesis by simp
next
  case greater
  then have "Suc row * nc \<le> r * nc" by (intro mult_le_mono1) simp
  then have "row * nc + m \<le> r * nc + c" using assms(2) by simp
  then show ?thesis using greater by simp
qed

lemma copy_rows_result:
  assumes "m \<le> nc" and "m \<le> oc" and "rows * oc \<le> length old" and "length new = rows * nc"
  shows "\<exists>res. copy_rows old oc nc m rows row new = Some res \<and> length res = length new
           \<and> (\<forall>r c. r < rows \<longrightarrow> c < nc \<longrightarrow>
                res ! (r * nc + c) =
                  (if row \<le> r \<and> c < m then old ! (r * oc + c) else new ! (r * nc + c)))"
  using assms
proof (induction old oc nc m rows row new rule: copy_rows.induct)
  case (1 old oc nc m rows row new)
  show ?case
  proof (cases "row < rows")
    case True
    then have "Suc row * oc \<le> rows * oc" and "Suc row * nc \<le> rows * nc"
      by (intro mult_le_mono1, simp)+
    then have o: "row * oc + m \<le> length old" and n: "row * nc + m \<le> length new"
      using "1.prems" by simp_all
    let ?src = "take m (drop (row * oc) old)"
    let ?new = "lv_memcpy_small new (row * nc) ?src"
    have ls: "length ?src = m" using o by simp
    have ln: "length ?new = length new" using n ls by (simp add: length_memcpy)
    from "1.IH" [OF True refl refl _ "1.prems"(1,2,3)] o n ln "1.prems"(4)
    obtain res where res: "copy_rows old oc nc m rows (Suc row) ?new = Some res"
      and lr: "length res = length new"
      and nth: "\<And>r c. r < rows \<Longrightarrow> c < nc \<Longrightarrow>
          res ! (r * nc + c) = (if Suc row \<le> r \<and> c < m then old ! (r * oc + c) else ?new ! (r * nc + c))"
      by auto
    have step: "copy_rows old oc nc m rows row new = Some res"
      using True o n res by (subst copy_rows.simps) (simp add: Let_def)
    have "res ! (r * nc + c) = (if row \<le> r \<and> c < m then old ! (r * oc + c) else new ! (r * nc + c))"
      if r: "r < rows" and c: "c < nc" for r c
    proof -
      have "Suc r * nc \<le> rows * nc" using r by (intro mult_le_mono1) simp
      then have j: "r * nc + c < length new" using c "1.prems"(4) by simp
      have cp: "?new ! (r * nc + c) =
          (if r = row \<and> c < m then ?src ! (r * nc + c - row * nc) else new ! (r * nc + c))"
        using nth_memcpy [of "row * nc" ?src new "r * nc + c"] n j ls
          row_index_cases [OF c "1.prems"(1), of row r]
        by simp
      show ?thesis
      proof (cases "r = row \<and> c < m")
        case True
        then have "?src ! (r * nc + c - row * nc) = old ! (row * oc + c)" using o by simp
        then show ?thesis using True nth [OF r c] cp by simp
      next
        case False
        then show ?thesis using nth [OF r c] cp by (auto simp: Suc_le_eq le_less)
      qed
    qed
    with step lr show ?thesis by blast
  next
    case False
    then show ?thesis by (subst copy_rows.simps) simp
  qed
qed

subsection \<open>Changing the counts\<close>

lemma length_fill_cols [simp]:
  "length (foldl (\<lambda>w col. w[col := d]) ws cols) = length ws"
  by (induction cols arbitrary: ws) simp_all

lemma set_col_cnt_Some:
  assumes "lv_table_set_col_cnt e mem t n = Some (t', mem')"
  shows "\<exists>cd w. copy_rows (cell_data t) (unat (col_cnt t)) (unat n)
                  (min (unat (col_cnt t)) (unat n)) (unat (row_cnt t)) 0
                  (replicate (unat n * unat (row_cnt t)) None) = Some cd
               \<and> length w = unat n
               \<and> refr_size e (t\<lparr>col_cnt := n, col_w := w, cell_data := cd\<rparr>) = Some t'"
proof -
  from assms obtain cd t3 where
    cp: "copy_rows (cell_data t) (unat (col_cnt t)) (unat n)
                  (min (unat (col_cnt t)) (unat n)) (unat (row_cnt t)) 0
                  (replicate (unat n * unat (row_cnt t)) None) = Some cd"
    and t3: "t3 = t\<lparr>col_cnt := n, col_w := resize (unat n) 0 (col_w t),
                     col_w := foldl (\<lambda>w col. w[col := dpi_def e]) (resize (unat n) 0 (col_w t))
                                [unat (col_cnt t) ..< unat n]\<rparr>
             \<or> t3 = t\<lparr>col_cnt := n, col_w := resize (unat n) 0 (col_w t)\<rparr>"
    and rs: "refr_size e (t3\<lparr>cell_data := cd\<rparr>) = Some t'"
    unfolding lv_table_set_col_cnt_def Let_def
    by (auto split: prod.splits bool.splits option.splits if_splits)
  from t3 show ?thesis
  proof
    assume "t3 = t\<lparr>col_cnt := n, col_w := resize (unat n) 0 (col_w t),
                     col_w := foldl (\<lambda>w col. w[col := dpi_def e]) (resize (unat n) 0 (col_w t))
                                [unat (col_cnt t) ..< unat n]\<rparr>"
    with cp rs show ?thesis
      by (intro exI [of _ cd] exI [of _ "foldl (\<lambda>w col. w[col := dpi_def e]) (resize (unat n) 0 (col_w t))
                                [unat (col_cnt t) ..< unat n]"]) simp
  next
    assume "t3 = t\<lparr>col_cnt := n, col_w := resize (unat n) 0 (col_w t)\<rparr>"
    with cp rs show ?thesis
      by (intro exI [of _ cd] exI [of _ "resize (unat n) 0 (col_w t)"]) simp
  qed
qed

lemma set_col_cnt_result:
  assumes inv: "table_inv t" and res: "lv_table_set_col_cnt e mem t n = Some (t', mem')"
  shows "col_cnt t' = n \<and> row_cnt t' = row_cnt t \<and> table_inv t'
         \<and> (\<forall>r c. r < unat (row_cnt t) \<longrightarrow> c < unat n \<longrightarrow>
               cell_data t' ! (r * unat n + c) =
                 (if c < min (unat (col_cnt t)) (unat n)
                  then cell_data t ! (r * unat (col_cnt t) + c) else None))"
proof -
  from set_col_cnt_Some [OF res] obtain cd w where
    cp: "copy_rows (cell_data t) (unat (col_cnt t)) (unat n)
                  (min (unat (col_cnt t)) (unat n)) (unat (row_cnt t)) 0
                  (replicate (unat n * unat (row_cnt t)) None) = Some cd"
    and w: "length w = unat n"
    and rs: "refr_size e (t\<lparr>col_cnt := n, col_w := w, cell_data := cd\<rparr>) = Some t'"
    by blast
  have lo: "unat (row_cnt t) * unat (col_cnt t) \<le> length (cell_data t)"
    using inv by (simp add: table_inv_def)
  have ln: "length (replicate (unat n * unat (row_cnt t)) (None :: cell option))
            = unat (row_cnt t) * unat n" by (simp add: mult.commute)
  from copy_rows_result [OF _ _ lo ln, of "min (unat (col_cnt t)) (unat n)" 0] cp
  have lcd: "length cd = unat (row_cnt t) * unat n"
    and nth: "\<And>r c. r < unat (row_cnt t) \<Longrightarrow> c < unat n \<Longrightarrow>
       cd ! (r * unat n + c) =
         (if c < min (unat (col_cnt t)) (unat n) then cell_data t ! (r * unat (col_cnt t) + c)
          else replicate (unat n * unat (row_cnt t)) None ! (r * unat n + c))"
    by auto
  have rep: "replicate (unat n * unat (row_cnt t)) (None :: cell option) ! (r * unat n + c) = None"
    if "r < unat (row_cnt t)" and "c < unat n" for r c
  proof -
    have "Suc r * unat n \<le> unat (row_cnt t) * unat n" using that(1) by (intro mult_le_mono1) simp
    then have "r * unat n + c < unat n * unat (row_cnt t)" using that(2) by (simp add: mult.commute)
    then show ?thesis by simp
  qed
  have inv1: "table_inv (t\<lparr>col_cnt := n, col_w := w, cell_data := cd\<rparr>)"
    using inv lcd w by (simp add: table_inv_def)
  from refr_size_frame [OF rs] refr_size_inv [OF rs inv1] nth rep
  show ?thesis by simp
qed

lemma set_col_cnt_total:
  assumes inv: "table_inv t" and ok: "mem_ok mem"
    and small: "unat (row_cnt t) * unat n < 2 ^ 16"
  shows "\<exists>t' mem'. lv_table_set_col_cnt e mem t n = Some (t', mem') \<and> mem_ok mem'"
proof -
  have a1: "lv_mem_realloc mem = (True, tl mem)" and ok1: "mem_ok (tl mem)"
    using mem_ok_realloc [OF ok] by simp_all
  have a2: "lv_mem_alloc (tl mem) = (True, tl (tl mem))" and ok2: "mem_ok (tl (tl mem))"
    using mem_ok_alloc [OF ok1] by simp_all
  let ?w = "if col_cnt t < n
            then foldl (\<lambda>w col. w[col := dpi_def e]) (resize (unat n) 0 (col_w t))
                   [unat (col_cnt t) ..< unat n]
            else resize (unat n) 0 (col_w t)"
  have lo: "unat (row_cnt t) * unat (col_cnt t) \<le> length (cell_data t)"
    using inv by (simp add: table_inv_def)
  have ln: "length (replicate (unat n * unat (row_cnt t)) (None :: cell option))
            = unat (row_cnt t) * unat n" by (simp add: mult.commute)
  from copy_rows_result [OF _ _ lo ln, of "min (unat (col_cnt t)) (unat n)" 0]
  obtain cd where cp: "copy_rows (cell_data t) (unat (col_cnt t)) (unat n)
                  (min (unat (col_cnt t)) (unat n)) (unat (row_cnt t)) 0
                  (replicate (unat n * unat (row_cnt t)) None) = Some cd"
    and lcd: "length cd = unat (row_cnt t) * unat n" by auto
  have inv1: "table_inv (t\<lparr>col_cnt := n, col_w := ?w, cell_data := cd\<rparr>)"
    using inv lcd by (simp add: table_inv_def)
  from refr_size_total [OF inv1, of e] small
  obtain t' where rs: "refr_size e (t\<lparr>col_cnt := n, col_w := ?w, cell_data := cd\<rparr>) = Some t'"
    by auto
  have "lv_table_set_col_cnt e mem t n = Some (t', tl (tl mem))"
    using rs by (cases "col_cnt t < n") (simp_all add: lv_table_set_col_cnt_def Let_def a1 a2 cp)
  with ok2 show ?thesis by blast
qed

lemma nth_resize:
  "j < n \<Longrightarrow> resize n d xs ! j = (if j < length xs then xs ! j else d)"
  by (simp add: resize_def nth_append)

lemma set_row_cnt_Some:
  assumes "lv_table_set_row_cnt e mem t n = Some (t', mem')"
  shows "\<exists>cd. (cd = lv_memcpy_small
                   (resize (unat n * unat (col_cnt t)) None (cell_data t))
                   (unat (row_cnt t) * unat (col_cnt t))
                   (replicate (unat (col_cnt t) * unat n - unat (row_cnt t) * unat (col_cnt t)) None)
                \<and> row_cnt t < n
              \<or> cd = resize (unat n * unat (col_cnt t)) None (cell_data t) \<and> \<not> row_cnt t < n)
            \<and> refr_size e (t\<lparr>row_cnt := n, row_h := resize (unat n) 0 (row_h t),
                              cell_data := cd\<rparr>) = Some t'"
  using assms unfolding lv_table_set_row_cnt_def Let_def
  by (auto split: prod.splits bool.splits option.splits if_splits)

lemma set_row_cnt_result:
  assumes inv: "table_inv t" and res: "lv_table_set_row_cnt e mem t n = Some (t', mem')"
  shows "row_cnt t' = n \<and> col_cnt t' = col_cnt t \<and> table_inv t'
         \<and> (\<forall>j. j < unat n * unat (col_cnt t) \<longrightarrow>
               cell_data t' ! j =
                 (if j < unat (row_cnt t) * unat (col_cnt t) then cell_data t ! j else None))"
proof -
  let ?c = "unat (col_cnt t)"
  let ?old = "unat (row_cnt t) * ?c"
  let ?new = "unat n * ?c"
  let ?rs = "resize ?new None (cell_data t)"
  from set_row_cnt_Some [OF res] obtain cd where
    cd: "cd = lv_memcpy_small ?rs ?old (replicate (?c * unat n - ?old) None) \<and> row_cnt t < n
         \<or> cd = ?rs \<and> \<not> row_cnt t < n"
    and rs: "refr_size e (t\<lparr>row_cnt := n, row_h := resize (unat n) 0 (row_h t),
                              cell_data := cd\<rparr>) = Some t'"
    by blast
  have len: "length (cell_data t) = ?old" using inv by (simp add: table_inv_def)
  have "length cd = ?new \<and> (\<forall>j. j < ?new \<longrightarrow> cd ! j = (if j < ?old then cell_data t ! j else None))"
    using cd
  proof
    assume a: "cd = lv_memcpy_small ?rs ?old (replicate (?c * unat n - ?old) None) \<and> row_cnt t < n"
    then have "unat (row_cnt t) < unat n" by (simp add: word_less_nat_alt)
    then have le: "?old \<le> ?new" by (intro mult_le_mono1) simp
    then have fit: "?old + length (replicate (?c * unat n - ?old) (None :: cell option)) \<le> length ?rs"
      by (simp add: mult.commute)
    have l: "length cd = ?new" using a length_memcpy [OF fit] by simp
    have "cd ! j = (if j < ?old then cell_data t ! j else None)" if j: "j < ?new" for j
    proof -
      have "j < length ?rs" using j by simp
      from nth_memcpy [OF fit this] a j le show ?thesis
        by (auto simp: nth_resize len mult.commute)
    qed
    with l show ?thesis by blast
  next
    assume a: "cd = ?rs \<and> \<not> row_cnt t < n"
    then have "unat n \<le> unat (row_cnt t)" by (simp add: word_less_nat_alt)
    then have le: "?new \<le> ?old" by (intro mult_le_mono1)
    show ?thesis using a le by (auto simp: nth_resize len)
  qed
  then have lcd: "length cd = ?new"
    and nth: "\<And>j. j < ?new \<Longrightarrow> cd ! j = (if j < ?old then cell_data t ! j else None)"
    by simp_all
  have inv1: "table_inv (t\<lparr>row_cnt := n, row_h := resize (unat n) 0 (row_h t), cell_data := cd\<rparr>)"
    using inv lcd by (simp add: table_inv_def)
  from refr_size_frame [OF rs] refr_size_inv [OF rs inv1] nth
  show ?thesis by simp
qed

lemma set_row_cnt_total:
  assumes inv: "table_inv t" and ok: "mem_ok mem"
    and small: "unat n * unat (col_cnt t) < 2 ^ 16"
  shows "\<exists>t' mem'. lv_table_set_row_cnt e mem t n = Some (t', mem') \<and> mem_ok mem'"
proof -
  have a1: "lv_mem_realloc mem = (True, tl mem)" and ok1: "mem_ok (tl mem)"
    using mem_ok_realloc [OF ok] by simp_all
  have a2: "lv_mem_realloc (tl mem) = (True, tl (tl mem))" and ok2: "mem_ok (tl (tl mem))"
    using mem_ok_realloc [OF ok1] by simp_all
  let ?c = "unat (col_cnt t)"
  let ?old = "unat (row_cnt t) * ?c"
  let ?rs = "resize (unat n * ?c) None (cell_data t)"
  let ?cd = "if row_cnt t < n
             then lv_memcpy_small ?rs ?old (replicate (?c * unat n - ?old) None) else ?rs"
  have lcd: "length ?cd = unat n * ?c"
  proof (cases "row_cnt t < n")
    case True
    then have "unat (row_cnt t) < unat n" by (simp add: word_less_nat_alt)
    then have le: "?old \<le> unat n * ?c" by (intro mult_le_mono1) simp
    then have fit: "?old + length (replicate (?c * unat n - ?old) (None :: cell option)) \<le> length ?rs"
      by (simp add: mult.commute)
    show ?thesis using True length_memcpy [OF fit] by simp
  next
    case False
    then show ?thesis by simp
  qed
  have inv1: "table_inv (t\<lparr>row_cnt := n, row_h := resize (unat n) 0 (row_h t), cell_data := ?cd\<rparr>)"
    using inv lcd by (simp add: table_inv_def del: if_split)
  from refr_size_total [OF inv1, of e] small
  obtain t' where rs: "refr_size e (t\<lparr>row_cnt := n, row_h := resize (unat n) 0 (row_h t),
                              cell_data := ?cd\<rparr>) = Some t'"
    by auto
  have "lv_table_set_row_cnt e mem t n = Some (t', tl (tl mem))"
    using rs by (cases "row_cnt t < n") (simp_all add: lv_table_set_row_cnt_def Let_def a1 a2)
  with ok2 show ?thesis by blast
qed

subsection \<open>Writing a text\<close>

lemma store_text_result:
  assumes inv: "table_inv t" and res: "store_text e mem t row col s = Some (t', mem')"
  shows "cell_index t row col < length (cell_data t)
         \<and> col_cnt t' = col_cnt t \<and> row_cnt t' = row_cnt t \<and> table_inv t'
         \<and> cell_data t' = (cell_data t)[cell_index t row col :=
               Some (case cell_data t ! cell_index t row col of
                       Some (f, old_txt) \<Rightarrow> f
                     | None \<Rightarrow> \<lparr>right_merge = False, crop = False\<rparr>, s)]"
proof -
  let ?i = "cell_index t row col"
  let ?f = "case cell_data t ! ?i of Some (f, old_txt) \<Rightarrow> f
            | None \<Rightarrow> \<lparr>right_merge = False, crop = False\<rparr>"
  from res have i: "?i < length (cell_data t)"
    and rs: "refr_size e (t\<lparr>cell_data := (cell_data t)[?i := Some (?f, s)]\<rparr>) = Some t'"
    unfolding store_text_def Let_def cell_at_def
    by (auto split: prod.splits bool.splits option.splits if_splits)
  have inv1: "table_inv (t\<lparr>cell_data := (cell_data t)[?i := Some (?f, s)]\<rparr>)"
    using inv by (simp add: table_inv_def)
  from refr_size_frame [OF rs] refr_size_inv [OF rs inv1] i show ?thesis by simp
qed

lemma store_text_total:
  assumes inv: "table_inv t" and ok: "mem_ok mem"
    and small: "unat (row_cnt t) * unat (col_cnt t) < 2 ^ 16"
    and i: "cell_index t row col < length (cell_data t)"
  shows "\<exists>t' mem'. store_text e mem t row col s = Some (t', mem') \<and> mem_ok mem'"
proof -
  let ?i = "cell_index t row col"
  let ?f = "case cell_data t ! ?i of Some (f, old_txt) \<Rightarrow> f
            | None \<Rightarrow> \<lparr>right_merge = False, crop = False\<rparr>"
  have a1: "lv_mem_realloc mem = (True, tl mem)" and ok1: "mem_ok (tl mem)"
    using mem_ok_realloc [OF ok] by simp_all
  have inv1: "table_inv (t\<lparr>cell_data := (cell_data t)[?i := Some (?f, s)]\<rparr>)"
    using inv by (simp add: table_inv_def)
  from refr_size_total [OF inv1, of e] small
  obtain t' where rs: "refr_size e (t\<lparr>cell_data := (cell_data t)[?i := Some (?f, s)]\<rparr>) = Some t'"
    by auto
  have "store_text e mem t row col s = Some (t', tl mem)"
    using i rs by (simp add: store_text_def Let_def cell_at_def a1)
  with ok1 show ?thesis by blast
qed

lemma auto_expand_result:
  assumes inv: "table_inv t" and res: "auto_expand e mem t row col = Some (t1, mem1)"
  shows "table_inv t1
         \<and> col_cnt t1 = (if col_cnt t \<le> col then col + 1 else col_cnt t)
         \<and> row_cnt t1 = (if row_cnt t \<le> row then row + 1 else row_cnt t)"
proof -
  from res obtain t0 mem0 where
    c: "(if col_cnt t \<le> col then lv_table_set_col_cnt e mem t (col + 1) else Some (t, mem))
        = Some (t0, mem0)"
    and r: "(if row_cnt t0 \<le> row then lv_table_set_row_cnt e mem0 t0 (row + 1) else Some (t0, mem0))
        = Some (t1, mem1)"
    unfolding auto_expand_def by (auto split: option.splits)
  have 0: "table_inv t0 \<and> col_cnt t0 = (if col_cnt t \<le> col then col + 1 else col_cnt t)
           \<and> row_cnt t0 = row_cnt t"
    using c inv set_col_cnt_result [OF inv, of e mem "col + 1" t0 mem0]
    by (auto split: if_splits)
  then have inv0: "table_inv t0" by simp
  show ?thesis
    using r 0 set_row_cnt_result [OF inv0, of e mem0 "row + 1" t1 mem1]
    by (auto split: if_splits)
qed


subsection \<open>Cells in range\<close>

text \<open>The constructor leaves a table whose arrays agree with its counts.\<close>

lemma constructor_inv: "table_inv (lv_table_constructor e)"
  by (simp add: table_inv_def lv_table_constructor_def)

lemma index_in_range:
  assumes "r < (rows::nat)" and "c < cols"
  shows "r * cols + c < rows * cols"
proof -
  have "Suc r * cols \<le> rows * cols" using assms(1) by (intro mult_le_mono1) simp
  then show ?thesis using assms(2) by simp
qed

lemma cell_at_in_range:
  assumes "table_inv t" and "row < row_cnt t" and "col < col_cnt t"
  shows "cell_at t (cell_index t row col) = Some (cell_data t ! cell_index t row col)"
    and "cell_index t row col < length (cell_data t)"
proof -
  have "unat row < unat (row_cnt t)" and "unat col < unat (col_cnt t)"
    using assms(2,3) by (simp_all add: word_less_nat_alt)
  from index_in_range [OF this] show "cell_index t row col < length (cell_data t)"
    using assms(1) by (simp add: cell_index_def table_inv_def)
  then show "cell_at t (cell_index t row col) = Some (cell_data t ! cell_index t row col)"
    by (simp add: cell_at_def)
qed

subsection \<open>The row height and merge chains\<close>

text \<open>
  C3. The claim: in \<^verbatim>\<open>get_row_height\<close> every merge chain is passed in one step, whether
  its head is cropped or not, so that no later member of a chain counts as a cell of its
  own. The code advances \<^verbatim>\<open>cell\<close> and \<^verbatim>\<open>col\<close> by the length of the chain only in
  the branch of a head that is not cropped. In a row of two columns whose first cell is
  merged to the right and cropped, the second cell is measured on its own and its text of
  height 50 sets the row height; with the same head not cropped the second cell is
  passed over and the height is the 10 of the head.
\<close>

theorem row_height_counts_tail_of_cropped_chain:
  "get_row_height
     \<lparr>cell_left = 0, cell_right = 0, cell_top = 0, cell_bottom = 0, font_line_height = 10,
      txt_get_size_y = (\<lambda>s w. if s = ''tall'' then 50 else 10), dpi_def = 130, to_coord = coord16\<rparr>
     \<lparr>col_cnt = 2, row_cnt = 1,
      cell_data = [Some (\<lparr>right_merge = True, crop = True\<rparr>, ''head''),
                   Some (\<lparr>right_merge = False, crop = False\<rparr>, ''tall'')],
      row_h = [10], col_w = [100, 100]\<rparr> 0 = Some 50
   \<and> get_row_height
     \<lparr>cell_left = 0, cell_right = 0, cell_top = 0, cell_bottom = 0, font_line_height = 10,
      txt_get_size_y = (\<lambda>s w. if s = ''tall'' then 50 else 10), dpi_def = 130, to_coord = coord16\<rparr>
     \<lparr>col_cnt = 2, row_cnt = 1,
      cell_data = [Some (\<lparr>right_merge = True, crop = False\<rparr>, ''head''),
                   Some (\<lparr>right_merge = False, crop = False\<rparr>, ''tall'')],
      row_h = [10], col_w = [100, 100]\<rparr> 0 = Some 10"
  by (simp add: get_row_height_def row_loop.simps merge_scan.simps cell_at_def col_w_at_def Let_def
      coord16_def)

subsection \<open>Growing the column count\<close>

text \<open>
  C5. On a table whose arrays agree with its counts, a call of \<^verbatim>\<open>lv_table_set_col_cnt\<close>
  with a column count \<open>n\<close> not below the old one that returns leaves every cell
  \<open>(r, c)\<close> with \<open>r < row_cnt\<close> and \<open>c < old col_cnt\<close> at its new row-major place
  \<open>r * n + c\<close>: \<^verbatim>\<open>lv_table_get_cell_value\<close> (and the two format getters) answer as before
  the call. The call returns when no allocation fails and the new grid has fewer than
  65536 cells.
\<close>

theorem set_col_cnt_grow_keeps_cells:
  assumes inv: "table_inv t" and grow: "col_cnt t \<le> n"
  shows "(\<forall>t' mem'. lv_table_set_col_cnt e mem t n = Some (t', mem') \<longrightarrow>
            col_cnt t' = n \<and> row_cnt t' = row_cnt t
            \<and> (\<forall>r c. r < row_cnt t \<longrightarrow> c < col_cnt t \<longrightarrow>
                  cell_at t' (unat r * unat n + unat c)
                    = cell_at t (unat r * unat (col_cnt t) + unat c)
                  \<and> lv_table_get_cell_value t' r c = lv_table_get_cell_value t r c
                  \<and> lv_table_get_cell_crop t' r c = lv_table_get_cell_crop t r c
                  \<and> lv_table_get_cell_merge_right t' r c = lv_table_get_cell_merge_right t r c))
       \<and> (mem_ok mem \<and> unat (row_cnt t) * unat n < 2 ^ 16 \<longrightarrow>
            (\<exists>t' mem'. lv_table_set_col_cnt e mem t n = Some (t', mem')))"
proof (rule conjI)
  show "\<forall>t' mem'. lv_table_set_col_cnt e mem t n = Some (t', mem') \<longrightarrow>
            col_cnt t' = n \<and> row_cnt t' = row_cnt t
            \<and> (\<forall>r c. r < row_cnt t \<longrightarrow> c < col_cnt t \<longrightarrow>
                  cell_at t' (unat r * unat n + unat c)
                    = cell_at t (unat r * unat (col_cnt t) + unat c)
                  \<and> lv_table_get_cell_value t' r c = lv_table_get_cell_value t r c
                  \<and> lv_table_get_cell_crop t' r c = lv_table_get_cell_crop t r c
                  \<and> lv_table_get_cell_merge_right t' r c = lv_table_get_cell_merge_right t r c)"
  proof (intro allI impI)
    fix t' mem' assume res: "lv_table_set_col_cnt e mem t n = Some (t', mem')"
    from set_col_cnt_result [OF inv res]
    have cc: "col_cnt t' = n" and rc: "row_cnt t' = row_cnt t" and inv': "table_inv t'"
      and nth: "\<And>r c. r < unat (row_cnt t) \<Longrightarrow> c < unat n \<Longrightarrow>
               cell_data t' ! (r * unat n + c) =
                 (if c < min (unat (col_cnt t)) (unat n)
                  then cell_data t ! (r * unat (col_cnt t) + c) else None)"
      by simp_all
    have le: "unat (col_cnt t) \<le> unat n" using grow by (simp add: word_le_nat_alt)
    have cells: "cell_at t' (unat r * unat n + unat c)
                    = cell_at t (unat r * unat (col_cnt t) + unat c)
                  \<and> lv_table_get_cell_value t' r c = lv_table_get_cell_value t r c
                  \<and> lv_table_get_cell_crop t' r c = lv_table_get_cell_crop t r c
                  \<and> lv_table_get_cell_merge_right t' r c = lv_table_get_cell_merge_right t r c"
      if r: "r < row_cnt t" and c: "c < col_cnt t" for r c
    proof -
      have c': "c < col_cnt t'" using c grow cc by simp
      have r': "r < row_cnt t'" using r rc by simp
      have ur: "unat r < unat (row_cnt t)" and uc: "unat c < unat (col_cnt t)"
        using r c by (simp_all add: word_less_nat_alt)
      have "cell_data t' ! (unat r * unat n + unat c) = cell_data t ! (unat r * unat (col_cnt t) + unat c)"
        using nth [OF ur, of "unat c"] uc le by simp
      then have eq: "cell_at t' (cell_index t' r c) = cell_at t (cell_index t r c)"
        using cell_at_in_range(1) [OF inv r c] cell_at_in_range(1) [OF inv' r' c']
        by (simp add: cell_index_def cc)
      have nle: "\<not> row_cnt t \<le> r" "\<not> col_cnt t \<le> c" "\<not> row_cnt t' \<le> r" "\<not> col_cnt t' \<le> c"
        using r c r' c' by (simp_all add: not_le)
      show ?thesis
        using eq nle
        by (simp add: lv_table_get_cell_value_def lv_table_get_cell_crop_def
            lv_table_get_cell_merge_right_def cell_index_def cc)
    qed
    from cc rc cells
    show "col_cnt t' = n \<and> row_cnt t' = row_cnt t
            \<and> (\<forall>r c. r < row_cnt t \<longrightarrow> c < col_cnt t \<longrightarrow>
                  cell_at t' (unat r * unat n + unat c)
                    = cell_at t (unat r * unat (col_cnt t) + unat c)
                  \<and> lv_table_get_cell_value t' r c = lv_table_get_cell_value t r c
                  \<and> lv_table_get_cell_crop t' r c = lv_table_get_cell_crop t r c
                  \<and> lv_table_get_cell_merge_right t' r c = lv_table_get_cell_merge_right t r c)"
      by blast
  qed
next
  show "mem_ok mem \<and> unat (row_cnt t) * unat n < 2 ^ 16 \<longrightarrow>
            (\<exists>t' mem'. lv_table_set_col_cnt e mem t n = Some (t', mem'))"
    using set_col_cnt_total [OF inv, of mem n e] by blast
qed


theorem set_col_cnt_grow_keeps_cells_witness:
  "table_inv \<lparr>col_cnt = 1, row_cnt = 2,
        cell_data = [Some (\<lparr>right_merge = False, crop = False\<rparr>, ''a''),
                     Some (\<lparr>right_merge = False, crop = True\<rparr>, ''b'')],
        row_h = [10, 10], col_w = [130]\<rparr>
   \<and> (\<exists>t' mem'. lv_table_set_col_cnt
         \<lparr>cell_left = 0, cell_right = 0, cell_top = 0, cell_bottom = 0, font_line_height = 10,
          txt_get_size_y = (\<lambda>s w. 10), dpi_def = 130, to_coord = coord16\<rparr> []
         \<lparr>col_cnt = 1, row_cnt = 2,
          cell_data = [Some (\<lparr>right_merge = False, crop = False\<rparr>, ''a''),
                       Some (\<lparr>right_merge = False, crop = True\<rparr>, ''b'')],
          row_h = [10, 10], col_w = [130]\<rparr> 3 = Some (t', mem')
        \<and> col_cnt t' = 3
        \<and> cell_at t' 3 = Some (Some (\<lparr>right_merge = False, crop = True\<rparr>, ''b''))
        \<and> lv_table_get_cell_value t' 1 0 = Some ''b'')"
proof -
  let ?e = "\<lparr>cell_left = 0, cell_right = 0, cell_top = 0, cell_bottom = 0, font_line_height = 10,
          txt_get_size_y = (\<lambda>s w. 10), dpi_def = 130, to_coord = coord16\<rparr>"
  let ?t = "\<lparr>col_cnt = 1, row_cnt = 2,
          cell_data = [Some (\<lparr>right_merge = False, crop = False\<rparr>, ''a''),
                       Some (\<lparr>right_merge = False, crop = True\<rparr>, ''b'')],
          row_h = [10, 10], col_w = [130]\<rparr>"
  have inv: "table_inv ?t" by (simp add: table_inv_def)
  have grow: "col_cnt ?t \<le> 3" by simp
  note inst = set_col_cnt_grow_keeps_cells [OF inv grow, of ?e "[]"]
  from inst [THEN conjunct2] obtain t' mem'
    where res: "lv_table_set_col_cnt ?e [] ?t 3 = Some (t', mem')"
    by (auto simp: mem_ok_def)
  from inst [THEN conjunct1, rule_format, OF res]
  have cc: "col_cnt t' = 3"
    and cells: "\<And>r c. r < row_cnt ?t \<Longrightarrow> c < col_cnt ?t \<Longrightarrow>
       cell_at t' (unat r * unat (3 :: uint16_t) + unat c)
         = cell_at ?t (unat r * unat (col_cnt ?t) + unat c)
       \<and> lv_table_get_cell_value t' r c = lv_table_get_cell_value ?t r c"
    by simp_all
  from cells [of 1 0]
  have "cell_at t' 3 = Some (Some (\<lparr>right_merge = False, crop = True\<rparr>, ''b''))"
    and "lv_table_get_cell_value t' 1 0 = Some ''b''"
    by (simp_all add: cell_at_def lv_table_get_cell_value_def cell_index_def word_le_nat_alt
        word_less_nat_alt)
  with inv res cc show ?thesis by blast
qed

subsection \<open>Reading outside the table\<close>

text \<open>
  C9. For a row not below \<^verbatim>\<open>row_cnt\<close> or a column not below \<^verbatim>\<open>col_cnt\<close>,
  \<^verbatim>\<open>lv_table_get_cell_value\<close> answers the empty string and \<^verbatim>\<open>lv_table_get_cell_crop\<close>
  and \<^verbatim>\<open>lv_table_get_cell_merge_right\<close> answer false; a cell in range that has no buffer
  yet gets the same three answers. The getters are functions of the table: they change
  nothing.
\<close>

theorem getters_out_of_range:
  "(row_cnt t \<le> row \<or> col_cnt t \<le> col \<longrightarrow>
      lv_table_get_cell_value t row col = Some []
      \<and> lv_table_get_cell_crop t row col = Some False
      \<and> lv_table_get_cell_merge_right t row col = Some False)
   \<and> (table_inv t \<and> r < row_cnt t \<and> c < col_cnt t
        \<and> cell_data t ! cell_index t r c = None \<longrightarrow>
      lv_table_get_cell_value t r c = Some []
      \<and> lv_table_get_cell_crop t r c = Some False
      \<and> lv_table_get_cell_merge_right t r c = Some False)"
proof (intro conjI impI)
  assume "row_cnt t \<le> row \<or> col_cnt t \<le> col"
  then show "lv_table_get_cell_value t row col = Some []"
    and "lv_table_get_cell_crop t row col = Some False"
    and "lv_table_get_cell_merge_right t row col = Some False"
    by (simp_all add: lv_table_get_cell_value_def lv_table_get_cell_crop_def
        lv_table_get_cell_merge_right_def)
next
  assume a: "table_inv t \<and> r < row_cnt t \<and> c < col_cnt t
        \<and> cell_data t ! cell_index t r c = None"
  then have "cell_at t (cell_index t r c) = Some None"
    using cell_at_in_range(1) [of t r c] by simp
  moreover have "\<not> (row_cnt t \<le> r \<or> col_cnt t \<le> c)" using a by (simp add: not_le)
  ultimately show "lv_table_get_cell_value t r c = Some []"
    and "lv_table_get_cell_crop t r c = Some False"
    and "lv_table_get_cell_merge_right t r c = Some False"
    by (simp_all add: lv_table_get_cell_value_def lv_table_get_cell_crop_def
        lv_table_get_cell_merge_right_def)
qed

theorem getters_out_of_range_witness:
  "lv_table_get_cell_value
      \<lparr>col_cnt = 2, row_cnt = 1,
       cell_data = [Some (\<lparr>right_merge = True, crop = True\<rparr>, ''a''), None],
       row_h = [10], col_w = [130, 130]\<rparr> 0 2 = Some []
   \<and> lv_table_get_cell_crop
      \<lparr>col_cnt = 2, row_cnt = 1,
       cell_data = [Some (\<lparr>right_merge = True, crop = True\<rparr>, ''a''), None],
       row_h = [10], col_w = [130, 130]\<rparr> 0 2 = Some False
   \<and> lv_table_get_cell_merge_right
      \<lparr>col_cnt = 2, row_cnt = 1,
       cell_data = [Some (\<lparr>right_merge = True, crop = True\<rparr>, ''a''), None],
       row_h = [10], col_w = [130, 130]\<rparr> 0 2 = Some False
   \<and> lv_table_get_cell_value
      \<lparr>col_cnt = 2, row_cnt = 1,
       cell_data = [Some (\<lparr>right_merge = True, crop = True\<rparr>, ''a''), None],
       row_h = [10], col_w = [130, 130]\<rparr> 0 1 = Some []
   \<and> lv_table_get_cell_crop
      \<lparr>col_cnt = 2, row_cnt = 1,
       cell_data = [Some (\<lparr>right_merge = True, crop = True\<rparr>, ''a''), None],
       row_h = [10], col_w = [130, 130]\<rparr> 0 1 = Some False
   \<and> lv_table_get_cell_merge_right
      \<lparr>col_cnt = 2, row_cnt = 1,
       cell_data = [Some (\<lparr>right_merge = True, crop = True\<rparr>, ''a''), None],
       row_h = [10], col_w = [130, 130]\<rparr> 0 1 = Some False"
  using getters_out_of_range [of
      "\<lparr>col_cnt = 2, row_cnt = 1,
       cell_data = [Some (\<lparr>right_merge = True, crop = True\<rparr>, ''a''), None],
       row_h = [10], col_w = [130, 130]\<rparr>" 0 2 0 1]
  by (simp add: table_inv_def cell_index_def)

subsection \<open>Writing a cell with auto-expansion\<close>

lemma grown_count:
  fixes x c :: uint16_t
  shows "x \<le> c \<Longrightarrow> c + 1 \<noteq> 0 \<Longrightarrow> unat (c + 1) = max (unat x) (unat c + 1) \<and> c < c + 1"
    and "\<not> x \<le> c \<Longrightarrow> unat x = max (unat x) (unat c + 1)"
proof -
  assume le: "x \<le> c" and nz: "c + 1 \<noteq> 0"
  from nz have u: "unat (c + 1) = Suc (unat c)" using unatSuc [of c] by (simp add: add.commute)
  moreover have "unat x \<le> unat c" using le by (simp add: word_le_nat_alt)
  ultimately show "unat (c + 1) = max (unat x) (unat c + 1) \<and> c < c + 1"
    by (simp add: word_less_nat_alt)
next
  assume "\<not> x \<le> c"
  then have "unat c < unat x" by (simp add: word_le_nat_alt)
  then show "unat x = max (unat x) (unat c + 1)" by simp
qed

lemma store_text_reads_back:
  assumes inv: "table_inv t" and r: "row < row_cnt t" and c: "col < col_cnt t"
    and res: "store_text e mem t row col s = Some (t', mem')"
  shows "col_cnt t' = col_cnt t \<and> row_cnt t' = row_cnt t \<and> table_inv t'
         \<and> lv_table_get_cell_value t' row col = Some s"
proof -
  from store_text_result [OF inv res]
  have i: "cell_index t row col < length (cell_data t)"
    and cc: "col_cnt t' = col_cnt t" and rc: "row_cnt t' = row_cnt t" and inv': "table_inv t'"
    and cd: "cell_data t' = (cell_data t)[cell_index t row col :=
               Some (case cell_data t ! cell_index t row col of
                       Some (f, old_txt) \<Rightarrow> f
                     | None \<Rightarrow> \<lparr>right_merge = False, crop = False\<rparr>, s)]"
    by simp_all
  have ix: "cell_index t' row col = cell_index t row col" by (simp add: cell_index_def cc)
  have nle: "\<not> (row_cnt t' \<le> row \<or> col_cnt t' \<le> col)" using r c cc rc by (simp add: not_le)
  have "lv_table_get_cell_value t' row col = Some s"
    using i nle by (simp add: lv_table_get_cell_value_def ix cell_at_def cd)
  with cc rc inv' show ?thesis by simp
qed

lemma nonempty_counts:
  assumes "table_inv t" and "cell_index t row col < length (cell_data t)"
  shows "row_cnt t \<noteq> 0 \<and> col_cnt t \<noteq> 0"
proof -
  have "cell_index t row col < unat (row_cnt t) * unat (col_cnt t)"
    using assms by (simp add: table_inv_def)
  then have "0 < unat (row_cnt t) * unat (col_cnt t)" by (rule le_less_trans [OF le0])
  then show ?thesis by (auto simp: unat_gt_0)
qed

lemma set_cell_value_result:
  assumes inv: "table_inv t" and res: "lv_table_set_cell_value e mem t row col s = Some (t', mem')"
  shows "unat (col_cnt t') = max (unat (col_cnt t)) (unat col + 1)
         \<and> unat (row_cnt t') = max (unat (row_cnt t)) (unat row + 1)
         \<and> lv_table_get_cell_value t' row col = Some s"
proof -
  from res obtain t1 mem1 where ae: "auto_expand e mem t row col = Some (t1, mem1)"
    and st: "store_text e mem1 t1 row col s = Some (t', mem')"
    unfolding lv_table_set_cell_value_def by (auto split: option.splits)
  from auto_expand_result [OF inv ae]
  have inv1: "table_inv t1"
    and c1: "col_cnt t1 = (if col_cnt t \<le> col then col + 1 else col_cnt t)"
    and r1: "row_cnt t1 = (if row_cnt t \<le> row then row + 1 else row_cnt t)"
    by simp_all
  from store_text_result [OF inv1 st] have "cell_index t1 row col < length (cell_data t1)" by simp
  from nonempty_counts [OF inv1 this] have nz: "row_cnt t1 \<noteq> 0" "col_cnt t1 \<noteq> 0" by simp_all
  have cols: "unat (col_cnt t1) = max (unat (col_cnt t)) (unat col + 1) \<and> col < col_cnt t1"
    using c1 nz(2) grown_count [of "col_cnt t" col]
    by (cases "col_cnt t \<le> col") (simp_all add: not_le)
  have rows: "unat (row_cnt t1) = max (unat (row_cnt t)) (unat row + 1) \<and> row < row_cnt t1"
    using r1 nz(1) grown_count [of "row_cnt t" row]
    by (cases "row_cnt t \<le> row") (simp_all add: not_le)
  from store_text_reads_back [OF inv1 _ _ st] rows cols show ?thesis by simp
qed

lemma set_cell_value_fmt_result:
  assumes inv: "table_inv t" and res: "lv_table_set_cell_value_fmt e mem t row col s = Some (t', mem')"
  shows "if col_cnt t \<le> col then t' = t \<and> mem' = mem
         else col_cnt t' = col_cnt t
            \<and> unat (row_cnt t') = max (unat (row_cnt t)) (unat row + 1)
            \<and> lv_table_get_cell_value t' row col = Some s"
proof (cases "col_cnt t \<le> col")
  case True
  then show ?thesis using res by (simp add: lv_table_set_cell_value_fmt_def)
next
  case False
  then have c: "col < col_cnt t" by (simp add: not_le)
  from res False obtain t1 mem1 where
    ex: "(if row_cnt t \<le> row then lv_table_set_row_cnt e mem t (row + 1) else Some (t, mem))
         = Some (t1, mem1)"
    and st: "store_text e mem1 t1 row col s = Some (t', mem')"
    unfolding lv_table_set_cell_value_fmt_def by (auto split: option.splits)
  have 1: "table_inv t1 \<and> col_cnt t1 = col_cnt t
           \<and> row_cnt t1 = (if row_cnt t \<le> row then row + 1 else row_cnt t)"
    using ex inv set_row_cnt_result [OF inv, of e mem "row + 1" t1 mem1]
    by (auto split: if_splits)
  then have inv1: "table_inv t1" and c1: "col < col_cnt t1" using c by simp_all
  from store_text_result [OF inv1 st] have "cell_index t1 row col < length (cell_data t1)" by simp
  from nonempty_counts [OF inv1 this] have nz: "row_cnt t1 \<noteq> 0" by simp
  have rows: "unat (row_cnt t1) = max (unat (row_cnt t)) (unat row + 1) \<and> row < row_cnt t1"
    using 1 nz grown_count [of "row_cnt t" row]
    by (cases "row_cnt t \<le> row") (simp_all add: not_le)
  from store_text_reads_back [OF inv1 _ c1 st] rows 1 False show ?thesis by simp
qed

lemma unat_succ_small:
  fixes c :: uint16_t
  assumes "unat c + 1 < 2 ^ 16"
  shows "unat (c + 1) = unat c + 1"
  using assms unat_add_lem [of c 1] by simp

lemma auto_expand_total:
  assumes inv: "table_inv t" and ok: "mem_ok mem"
    and small: "max (unat (row_cnt t)) (unat row + 1) * max (unat (col_cnt t)) (unat col + 1) < 2 ^ 16"
  shows "\<exists>t1 mem1. auto_expand e mem t row col = Some (t1, mem1) \<and> mem_ok mem1 \<and> table_inv t1
           \<and> unat (col_cnt t1) = max (unat (col_cnt t)) (unat col + 1)
           \<and> unat (row_cnt t1) = max (unat (row_cnt t)) (unat row + 1)"
proof -
  let ?R = "max (unat (row_cnt t)) (unat row + 1)"
  let ?C = "max (unat (col_cnt t)) (unat col + 1)"
  have R1: "1 \<le> ?R" and C1: "1 \<le> ?C" by simp_all
  have "?C = 1 * ?C" by simp
  also have "\<dots> \<le> ?R * ?C" using R1 by (intro mult_le_mono1)
  finally have Cs: "?C < 2 ^ 16" using small by simp
  have "?R = ?R * 1" by simp
  also have "\<dots> \<le> ?R * ?C" using C1 by (intro mult_le_mono2)
  finally have Rs: "?R < 2 ^ 16" using small by simp
  have uc: "unat (col + 1) = unat col + 1" using Cs by (intro unat_succ_small) simp
  have ur: "unat (row + 1) = unat row + 1" using Rs by (intro unat_succ_small) simp
  have "\<exists>t0 mem0. (if col_cnt t \<le> col then lv_table_set_col_cnt e mem t (col + 1) else Some (t, mem))
            = Some (t0, mem0) \<and> mem_ok mem0 \<and> table_inv t0 \<and> row_cnt t0 = row_cnt t
          \<and> unat (col_cnt t0) = ?C"
  proof (cases "col_cnt t \<le> col")
    case True
    have "unat (row_cnt t) * unat (col + 1) \<le> ?R * ?C" by (intro mult_le_mono) (simp_all add: uc)
    with small have "unat (row_cnt t) * unat (col + 1) < 2 ^ 16" by simp
    from set_col_cnt_total [OF inv ok this, of e] obtain t0 mem0
      where s: "lv_table_set_col_cnt e mem t (col + 1) = Some (t0, mem0)" and ok0: "mem_ok mem0"
      by blast
    from set_col_cnt_result [OF inv s] have "col_cnt t0 = col + 1" "row_cnt t0 = row_cnt t" "table_inv t0"
      by simp_all
    moreover have "unat (col_cnt t) \<le> unat col" using True by (simp add: word_le_nat_alt)
    ultimately show ?thesis using True s ok0 uc by simp
  next
    case False
    then have "unat col < unat (col_cnt t)" by (simp add: word_le_nat_alt)
    then show ?thesis using False inv ok by simp
  qed
  then obtain t0 mem0 where
    s0: "(if col_cnt t \<le> col then lv_table_set_col_cnt e mem t (col + 1) else Some (t, mem))
            = Some (t0, mem0)"
    and ok0: "mem_ok mem0" and inv0: "table_inv t0" and r0: "row_cnt t0 = row_cnt t"
    and c0: "unat (col_cnt t0) = ?C" by blast
  have "\<exists>t1 mem1. (if row_cnt t0 \<le> row then lv_table_set_row_cnt e mem0 t0 (row + 1) else Some (t0, mem0))
            = Some (t1, mem1) \<and> mem_ok mem1 \<and> table_inv t1 \<and> col_cnt t1 = col_cnt t0
          \<and> unat (row_cnt t1) = ?R"
  proof (cases "row_cnt t0 \<le> row")
    case True
    have "unat (row + 1) * unat (col_cnt t0) \<le> ?R * ?C" by (intro mult_le_mono) (simp_all add: ur c0)
    with small have "unat (row + 1) * unat (col_cnt t0) < 2 ^ 16" by simp
    from set_row_cnt_total [OF inv0 ok0 this, of e] obtain t1 mem1
      where s: "lv_table_set_row_cnt e mem0 t0 (row + 1) = Some (t1, mem1)" and ok1: "mem_ok mem1"
      by blast
    from set_row_cnt_result [OF inv0 s] have "row_cnt t1 = row + 1" "col_cnt t1 = col_cnt t0" "table_inv t1"
      by simp_all
    moreover have "unat (row_cnt t) \<le> unat row" using True r0 by (simp add: word_le_nat_alt)
    ultimately show ?thesis using True s ok1 ur by simp
  next
    case False
    then have "unat row < unat (row_cnt t)" using r0 by (simp add: word_le_nat_alt)
    then show ?thesis using False inv0 ok0 r0 by simp
  qed
  then obtain t1 mem1 where
    s1: "(if row_cnt t0 \<le> row then lv_table_set_row_cnt e mem0 t0 (row + 1) else Some (t0, mem0))
            = Some (t1, mem1)"
    and ok1: "mem_ok mem1" and inv1: "table_inv t1" and c1: "col_cnt t1 = col_cnt t0"
    and r1: "unat (row_cnt t1) = ?R" by blast
  have "auto_expand e mem t row col = Some (t1, mem1)"
    using s0 s1 by (simp add: auto_expand_def)
  with ok1 inv1 c1 c0 r1 show ?thesis by simp
qed

lemma store_text_total_at:
  assumes inv: "table_inv t" and ok: "mem_ok mem"
    and small: "unat (row_cnt t) * unat (col_cnt t) < 2 ^ 16"
    and r: "unat row < unat (row_cnt t)" and c: "unat col < unat (col_cnt t)"
  shows "\<exists>t' mem'. store_text e mem t row col s = Some (t', mem')"
proof -
  from index_in_range [OF r c] have "cell_index t row col < length (cell_data t)"
    using inv by (simp add: cell_index_def table_inv_def)
  from store_text_total [OF inv ok small this, of e s] show ?thesis by blast
qed

lemma set_cell_value_total:
  assumes inv: "table_inv t" and ok: "mem_ok mem"
    and small: "max (unat (row_cnt t)) (unat row + 1) * max (unat (col_cnt t)) (unat col + 1) < 2 ^ 16"
  shows "\<exists>t' mem'. lv_table_set_cell_value e mem t row col s = Some (t', mem')"
proof -
  from auto_expand_total [OF inv ok small, of e] obtain t1 mem1 where
    ae: "auto_expand e mem t row col = Some (t1, mem1)" and ok1: "mem_ok mem1"
    and inv1: "table_inv t1"
    and c1: "unat (col_cnt t1) = max (unat (col_cnt t)) (unat col + 1)"
    and r1: "unat (row_cnt t1) = max (unat (row_cnt t)) (unat row + 1)" by blast
  have "\<exists>t' mem'. store_text e mem1 t1 row col s = Some (t', mem')"
    using small by (intro store_text_total_at [OF inv1 ok1]) (simp_all add: c1 r1)
  then show ?thesis by (simp add: lv_table_set_cell_value_def ae)
qed

lemma set_cell_value_fmt_total:
  assumes inv: "table_inv t" and ok: "mem_ok mem"
    and small: "max (unat (row_cnt t)) (unat row + 1) * max (unat (col_cnt t)) (unat col + 1) < 2 ^ 16"
  shows "\<exists>t' mem'. lv_table_set_cell_value_fmt e mem t row col s = Some (t', mem')"
proof (cases "col_cnt t \<le> col")
  case True
  then show ?thesis by (simp add: lv_table_set_cell_value_fmt_def)
next
  case False
  then have c: "unat col < unat (col_cnt t)" by (simp add: word_le_nat_alt)
  then have C: "max (unat (col_cnt t)) (unat col + 1) = unat (col_cnt t)" by simp
  from auto_expand_total [OF inv ok small, of e] False obtain t1 mem1 where
    ex: "(if row_cnt t \<le> row then lv_table_set_row_cnt e mem t (row + 1) else Some (t, mem))
         = Some (t1, mem1)" and ok1: "mem_ok mem1"
    and inv1: "table_inv t1"
    and c1: "unat (col_cnt t1) = max (unat (col_cnt t)) (unat col + 1)"
    and r1: "unat (row_cnt t1) = max (unat (row_cnt t)) (unat row + 1)"
    by (auto simp: auto_expand_def)
  have "\<exists>t' mem'. store_text e mem1 t1 row col s = Some (t', mem')"
    using small by (intro store_text_total_at [OF inv1 ok1]) (simp_all add: c1 r1)
  then show ?thesis using False by (simp add: lv_table_set_cell_value_fmt_def ex)
qed

text \<open>
  C6, as stated: both \<^verbatim>\<open>lv_table_set_cell_value\<close> and \<^verbatim>\<open>lv_table_set_cell_value_fmt\<close>
  grow the column count to \<^verbatim>\<open>col + 1\<close> when \<^verbatim>\<open>col >= col_cnt\<close>. On the table of one
  cell the formatted variant called for column 1 returns the table as it was: one
  column, and no text at row 0, column 1.
\<close>

theorem set_cell_value_fmt_no_column_growth_counterexample:
  "lv_table_set_cell_value_fmt
     \<lparr>cell_left = 0, cell_right = 0, cell_top = 0, cell_bottom = 0, font_line_height = 10,
      txt_get_size_y = (\<lambda>s w. 10), dpi_def = 130, to_coord = coord16\<rparr> []
     \<lparr>col_cnt = 1, row_cnt = 1, cell_data = [None], row_h = [130], col_w = [130]\<rparr>
     0 1 ''x''
   = Some (\<lparr>col_cnt = 1, row_cnt = 1, cell_data = [None], row_h = [130], col_w = [130]\<rparr>, [])
   \<and> col_cnt \<lparr>col_cnt = 1, row_cnt = 1, cell_data = [None], row_h = [130], col_w = [130]\<rparr>
       \<noteq> 1 + 1
   \<and> lv_table_get_cell_value
       \<lparr>col_cnt = 1, row_cnt = 1, cell_data = [None], row_h = [130], col_w = [130]\<rparr> 0 1
       \<noteq> Some ''x''"
  by (simp add: lv_table_set_cell_value_fmt_def lv_table_get_cell_value_def)

text \<open>
  C6, amended. \<^verbatim>\<open>lv_table_set_cell_value\<close> grows the column count to \<^verbatim>\<open>col + 1\<close> when
  \<^verbatim>\<open>col >= col_cnt\<close> and the row count to \<^verbatim>\<open>row + 1\<close> when \<^verbatim>\<open>row >= row_cnt\<close>
  (columns first), and then the cell at \<open>(row, col)\<close> holds the text.
  \<^verbatim>\<open>lv_table_set_cell_value_fmt\<close> returns without any change when \<^verbatim>\<open>col >= col_cnt\<close>;
  otherwise it grows the row count in the same way, leaves the column count, and the
  cell holds the rendered text. Both return when no allocation fails and the grid that
  results has fewer than 65536 cells.
\<close>

theorem set_cell_value_auto_expand:
  assumes inv: "table_inv t"
  shows "(\<forall>t' mem'. lv_table_set_cell_value e mem t row col s = Some (t', mem') \<longrightarrow>
            unat (col_cnt t') = max (unat (col_cnt t)) (unat col + 1)
            \<and> unat (row_cnt t') = max (unat (row_cnt t)) (unat row + 1)
            \<and> lv_table_get_cell_value t' row col = Some s)
       \<and> (\<forall>t' mem'. lv_table_set_cell_value_fmt e mem t row col s = Some (t', mem') \<longrightarrow>
            (if col_cnt t \<le> col then t' = t \<and> mem' = mem
             else col_cnt t' = col_cnt t
                \<and> unat (row_cnt t') = max (unat (row_cnt t)) (unat row + 1)
                \<and> lv_table_get_cell_value t' row col = Some s))
       \<and> (mem_ok mem
            \<and> max (unat (row_cnt t)) (unat row + 1) * max (unat (col_cnt t)) (unat col + 1) < 2 ^ 16
          \<longrightarrow> (\<exists>t' mem'. lv_table_set_cell_value e mem t row col s = Some (t', mem'))
            \<and> (\<exists>t' mem'. lv_table_set_cell_value_fmt e mem t row col s = Some (t', mem')))"
  using set_cell_value_result [OF inv, of e mem row col s]
    set_cell_value_fmt_result [OF inv, of e mem row col s]
    set_cell_value_total [OF inv, of mem row col e s]
    set_cell_value_fmt_total [OF inv, of mem row col e s]
  by blast


theorem set_cell_value_auto_expand_witness:
  "table_inv \<lparr>col_cnt = 1, row_cnt = 1, cell_data = [None], row_h = [130], col_w = [130]\<rparr>
   \<and> (\<exists>t' mem'. lv_table_set_cell_value
         \<lparr>cell_left = 0, cell_right = 0, cell_top = 0, cell_bottom = 0, font_line_height = 10,
          txt_get_size_y = (\<lambda>s w. 10), dpi_def = 130, to_coord = coord16\<rparr> []
         \<lparr>col_cnt = 1, row_cnt = 1, cell_data = [None], row_h = [130], col_w = [130]\<rparr>
         2 1 ''x'' = Some (t', mem')
        \<and> unat (col_cnt t') = 2 \<and> unat (row_cnt t') = 3
        \<and> lv_table_get_cell_value t' 2 1 = Some ''x'')
   \<and> (\<exists>t' mem'. lv_table_set_cell_value_fmt
         \<lparr>cell_left = 0, cell_right = 0, cell_top = 0, cell_bottom = 0, font_line_height = 10,
          txt_get_size_y = (\<lambda>s w. 10), dpi_def = 130, to_coord = coord16\<rparr> []
         \<lparr>col_cnt = 1, row_cnt = 1, cell_data = [None], row_h = [130], col_w = [130]\<rparr>
         2 0 ''x'' = Some (t', mem')
        \<and> col_cnt t' = 1 \<and> unat (row_cnt t') = 3
        \<and> lv_table_get_cell_value t' 2 0 = Some ''x'')"
proof -
  let ?e = "\<lparr>cell_left = 0, cell_right = 0, cell_top = 0, cell_bottom = 0, font_line_height = 10,
          txt_get_size_y = (\<lambda>s w. 10), dpi_def = 130, to_coord = coord16\<rparr>"
  let ?t = "\<lparr>col_cnt = 1, row_cnt = 1, cell_data = [None], row_h = [130], col_w = [130]\<rparr>"
  have inv: "table_inv ?t" by (simp add: table_inv_def)
  note a = set_cell_value_auto_expand [OF inv, of ?e "[]" 2 1 "''x''"]
  note b = set_cell_value_auto_expand [OF inv, of ?e "[]" 2 0 "''x''"]
  from a [THEN conjunct2, THEN conjunct2] obtain t1 m1
    where r1: "lv_table_set_cell_value ?e [] ?t 2 1 ''x'' = Some (t1, m1)"
    by (auto simp: mem_ok_def)
  from a [THEN conjunct1, rule_format, OF r1]
  have p1: "unat (col_cnt t1) = 2 \<and> unat (row_cnt t1) = 3
      \<and> lv_table_get_cell_value t1 2 1 = Some ''x''" by simp
  from b [THEN conjunct2, THEN conjunct2] obtain t2 m2
    where r2: "lv_table_set_cell_value_fmt ?e [] ?t 2 0 ''x'' = Some (t2, m2)"
    by (auto simp: mem_ok_def)
  from b [THEN conjunct2, THEN conjunct1, rule_format, OF r2]
  have p2: "col_cnt t2 = 1 \<and> unat (row_cnt t2) = 3
      \<and> lv_table_get_cell_value t2 2 0 = Some ''x''" by simp
  from inv r1 p1 r2 p2 show ?thesis by blast
qed

subsection \<open>Setting the crop flag\<close>

lemma in_bounds_no_expand:
  "row < row_cnt t \<Longrightarrow> col < col_cnt t \<Longrightarrow> auto_expand e mem t row col = Some (t, mem)"
  by (simp add: auto_expand_def not_le [symmetric])

lemma set_cell_crop_in_bounds:
  assumes inv: "table_inv t" and r: "row < row_cnt t" and c: "col < col_cnt t"
    and res: "lv_table_set_cell_crop e mem t row col v = Some (t', mem')"
  shows "t' = t\<lparr>cell_data := (cell_data t)[cell_index t row col :=
               (case cell_data t ! cell_index t row col of
                  None \<Rightarrow> Some (\<lparr>right_merge = False, crop = v\<rparr>, [])
                | Some (f, s) \<Rightarrow> Some (f\<lparr>crop := v\<rparr>, s))]\<rparr>"
proof -
  let ?i = "cell_index t row col"
  have i: "?i < length (cell_data t)" by (rule cell_at_in_range(2) [OF inv r c])
  show ?thesis
  proof (cases "cell_data t ! ?i")
    case None
    then show ?thesis using res i
      by (auto simp: lv_table_set_cell_crop_def in_bounds_no_expand [OF r c] ensure_cell_def
          set_format_def cell_at_def split: prod.splits bool.splits)
  next
    case (Some fc)
    then show ?thesis using res i
      by (cases fc)
         (auto simp: lv_table_set_cell_crop_def in_bounds_no_expand [OF r c] ensure_cell_def
          set_format_def cell_at_def)
  qed
qed

lemma set_cell_crop_total:
  assumes inv: "table_inv t" and r: "row < row_cnt t" and c: "col < col_cnt t" and ok: "mem_ok mem"
  shows "\<exists>t' mem'. lv_table_set_cell_crop e mem t row col v = Some (t', mem')"
proof -
  let ?i = "cell_index t row col"
  have i: "?i < length (cell_data t)" by (rule cell_at_in_range(2) [OF inv r c])
  have a: "lv_mem_alloc mem = (True, tl mem)" using mem_ok_alloc [OF ok] by simp
  show ?thesis
  proof (cases "cell_data t ! ?i")
    case None
    then show ?thesis using i
      by (simp add: lv_table_set_cell_crop_def in_bounds_no_expand [OF r c] ensure_cell_def
          set_format_def cell_at_def a)
  next
    case (Some fc)
    then show ?thesis using i
      by (cases fc)
         (simp add: lv_table_set_cell_crop_def in_bounds_no_expand [OF r c] ensure_cell_def
          set_format_def cell_at_def)
  qed
qed

lemma set_cell_merge_right_in_bounds:
  assumes inv: "table_inv t" and r: "row < row_cnt t" and c: "col < col_cnt t"
    and res: "lv_table_set_cell_merge_right e mem t row col en = Some (t', mem')"
  shows "refr_size e (t\<lparr>cell_data := (cell_data t)[cell_index t row col :=
               (case cell_data t ! cell_index t row col of
                  None \<Rightarrow> Some (\<lparr>right_merge = en, crop = False\<rparr>, [])
                | Some (f, s) \<Rightarrow> Some (f\<lparr>right_merge := en\<rparr>, s))]\<rparr>) = Some t'"
proof -
  let ?i = "cell_index t row col"
  have i: "?i < length (cell_data t)" by (rule cell_at_in_range(2) [OF inv r c])
  have b: "(if en then True else False) = en" by simp
  show ?thesis
  proof (cases "cell_data t ! ?i")
    case None
    then show ?thesis using res i
      by (auto simp: lv_table_set_cell_merge_right_def in_bounds_no_expand [OF r c] ensure_cell_def
          set_format_def cell_at_def b split: prod.splits bool.splits)
  next
    case (Some fc)
    then show ?thesis using res i
      by (cases fc)
         (auto simp: lv_table_set_cell_merge_right_def in_bounds_no_expand [OF r c] ensure_cell_def
          set_format_def cell_at_def b)
  qed
qed

text \<open>
  C10. \<^verbatim>\<open>lv_table_set_cell_crop\<close> on a cell inside the table changes the crop flag of
  that cell and nothing else: a cell without buffer gets an empty text and a cleared
  format first; the text and the merge flag of the cell, every other cell, the row
  heights, the column widths and the counts stay. It returns when the allocation it may
  need succeeds. \<^verbatim>\<open>lv_table_set_cell_merge_right\<close>, unlike it, ends with
  \<^verbatim>\<open>refr_size\<close>: its result is the table with the flag set and the row heights computed
  anew.
\<close>

theorem set_cell_crop_frame:
  assumes inv: "table_inv t" and r: "row < row_cnt t" and c: "col < col_cnt t"
  shows "(\<forall>t' mem'. lv_table_set_cell_crop e mem t row col v = Some (t', mem') \<longrightarrow>
            cell_data t' = (cell_data t)[cell_index t row col :=
               (case cell_data t ! cell_index t row col of
                  None \<Rightarrow> Some (\<lparr>right_merge = False, crop = v\<rparr>, [])
                | Some (f, s) \<Rightarrow> Some (f\<lparr>crop := v\<rparr>, s))]
            \<and> row_h t' = row_h t \<and> col_w t' = col_w t
            \<and> row_cnt t' = row_cnt t \<and> col_cnt t' = col_cnt t
            \<and> lv_table_get_cell_value t' row col = lv_table_get_cell_value t row col
            \<and> lv_table_get_cell_merge_right t' row col = lv_table_get_cell_merge_right t row col
            \<and> lv_table_get_cell_crop t' row col = Some v)
       \<and> (mem_ok mem \<longrightarrow> (\<exists>t' mem'. lv_table_set_cell_crop e mem t row col v = Some (t', mem')))
       \<and> (\<forall>t' mem'. lv_table_set_cell_merge_right e mem t row col en = Some (t', mem') \<longrightarrow>
            refr_size e (t\<lparr>cell_data := (cell_data t)[cell_index t row col :=
               (case cell_data t ! cell_index t row col of
                  None \<Rightarrow> Some (\<lparr>right_merge = en, crop = False\<rparr>, [])
                | Some (f, s) \<Rightarrow> Some (f\<lparr>right_merge := en\<rparr>, s))]\<rparr>) = Some t')"
proof (intro conjI allI impI)
  fix t' mem' assume res: "lv_table_set_cell_crop e mem t row col v = Some (t', mem')"
  let ?i = "cell_index t row col"
  let ?new = "case cell_data t ! ?i of
                  None \<Rightarrow> Some (\<lparr>right_merge = False, crop = v\<rparr>, [])
                | Some (f, s) \<Rightarrow> Some (f\<lparr>crop := v\<rparr>, s)"
  have t': "t' = t\<lparr>cell_data := (cell_data t)[?i := ?new]\<rparr>"
    by (rule set_cell_crop_in_bounds [OF inv r c res])
  have i: "?i < length (cell_data t)" by (rule cell_at_in_range(2) [OF inv r c])
  have nle: "\<not> (row_cnt t \<le> row \<or> col_cnt t \<le> col)" using r c by (simp add: not_le)
  have ix: "cell_index t' row col = ?i" by (simp add: t' cell_index_def)
  show "cell_data t' = (cell_data t)[?i := ?new]" by (simp add: t')
  show "row_h t' = row_h t" by (simp add: t')
  show "col_w t' = col_w t" by (simp add: t')
  show "row_cnt t' = row_cnt t" by (simp add: t')
  show "col_cnt t' = col_cnt t" by (simp add: t')
  show "lv_table_get_cell_value t' row col = lv_table_get_cell_value t row col"
    using i nle by (simp add: lv_table_get_cell_value_def ix cell_at_def, simp add: t' split: option.splits)
  show "lv_table_get_cell_merge_right t' row col = lv_table_get_cell_merge_right t row col"
    using i nle by (simp add: lv_table_get_cell_merge_right_def ix cell_at_def, simp add: t' split: option.splits)
  show "lv_table_get_cell_crop t' row col = Some v"
    using i nle by (simp add: lv_table_get_cell_crop_def ix cell_at_def, simp add: t' split: option.splits)
next
  assume "mem_ok mem"
  from set_cell_crop_total [OF inv r c this]
  show "\<exists>t' mem'. lv_table_set_cell_crop e mem t row col v = Some (t', mem')" .
next
  fix t' mem' assume "lv_table_set_cell_merge_right e mem t row col en = Some (t', mem')"
  from set_cell_merge_right_in_bounds [OF inv r c this]
  show "refr_size e (t\<lparr>cell_data := (cell_data t)[cell_index t row col :=
               (case cell_data t ! cell_index t row col of
                  None \<Rightarrow> Some (\<lparr>right_merge = en, crop = False\<rparr>, [])
                | Some (f, s) \<Rightarrow> Some (f\<lparr>right_merge := en\<rparr>, s))]\<rparr>) = Some t'" .
qed

theorem set_cell_crop_frame_witness:
  "table_inv \<lparr>col_cnt = 2, row_cnt = 1,
       cell_data = [Some (\<lparr>right_merge = True, crop = False\<rparr>, ''ab''), None],
       row_h = [10], col_w = [130, 130]\<rparr>
   \<and> (\<exists>t' mem'. lv_table_set_cell_crop
         \<lparr>cell_left = 0, cell_right = 0, cell_top = 0, cell_bottom = 0, font_line_height = 10,
          txt_get_size_y = (\<lambda>s w. 10), dpi_def = 130, to_coord = coord16\<rparr> []
         \<lparr>col_cnt = 2, row_cnt = 1,
          cell_data = [Some (\<lparr>right_merge = True, crop = False\<rparr>, ''ab''), None],
          row_h = [10], col_w = [130, 130]\<rparr> 0 0 True = Some (t', mem')
        \<and> cell_data t' = [Some (\<lparr>right_merge = True, crop = True\<rparr>, ''ab''), None]
        \<and> row_h t' = [10]
        \<and> lv_table_get_cell_value t' 0 0 = Some ''ab''
        \<and> lv_table_get_cell_merge_right t' 0 0 = Some True
        \<and> lv_table_get_cell_crop t' 0 0 = Some True)"
proof -
  let ?e = "\<lparr>cell_left = 0, cell_right = 0, cell_top = 0, cell_bottom = 0, font_line_height = 10,
          txt_get_size_y = (\<lambda>s w. 10), dpi_def = 130, to_coord = coord16\<rparr>"
  let ?t = "\<lparr>col_cnt = 2, row_cnt = 1,
          cell_data = [Some (\<lparr>right_merge = True, crop = False\<rparr>, ''ab''), None],
          row_h = [10], col_w = [130, 130]\<rparr>"
  have inv: "table_inv ?t" by (simp add: table_inv_def)
  have r: "(0 :: uint16_t) < row_cnt ?t" and c: "(0 :: uint16_t) < col_cnt ?t" by simp_all
  note inst = set_cell_crop_frame [OF inv r c, of ?e "[]" True]
  from inst [THEN conjunct2, THEN conjunct1] obtain t' mem'
    where res: "lv_table_set_cell_crop ?e [] ?t 0 0 True = Some (t', mem')"
    by (auto simp: mem_ok_def)
  from inst [THEN conjunct1, rule_format, OF res]
  have "cell_data t' = [Some (\<lparr>right_merge = True, crop = True\<rparr>, ''ab''), None]
        \<and> row_h t' = [10]
        \<and> lv_table_get_cell_value t' 0 0 = Some ''ab''
        \<and> lv_table_get_cell_merge_right t' 0 0 = Some True
        \<and> lv_table_get_cell_crop t' 0 0 = Some True"
    by (simp add: cell_index_def lv_table_get_cell_value_def lv_table_get_cell_merge_right_def
        cell_at_def)
  with inv res show ?thesis by blast
qed

end
